theory Spec2Isabelle
  imports Main
begin

section \<open>git-clean: the prefix writer of \<^verbatim>\<open>main.go\<close>\<close>

text \<open>
  Bytes are \<^typ>\<open>char\<close> (eight bits), a \<^verbatim>\<open>[]byte\<close> or Go \<^verbatim>\<open>string\<close> is a
  \<^typ>\<open>string\<close>. A Go \<^verbatim>\<open>error\<close> is an \<^verbatim>\<open>error option\<close>, \<open>None\<close> being
  \<^verbatim>\<open>nil\<close>; the error value carries its message.
\<close>

type_synonym error = string

definition nl :: char where
  "nl = CHR 0x0A"

text \<open>
  An \<^verbatim>\<open>io.Writer\<close> is its \<^verbatim>\<open>Write\<close> method over an explicit sink state \<open>'s\<close>:
  it takes the bytes and returns the count, the error and the new state.
\<close>

type_synonym 's writer = "'s \<Rightarrow> string \<Rightarrow> (nat \<times> error option) \<times> 's"

text \<open>
  \<^verbatim>\<open>type prefixWriter struct { started bool; prefix string; w io.Writer }\<close>.
  The field \<open>w\<close> holds the state of the destination; the destination's method is
  passed to the functions below.
\<close>

record 's prefixWriter =
  started :: bool
  prefix :: string
  w :: 's

text \<open>
  \<^verbatim>\<open>func (pw *prefixWriter) writeOnce(p []byte) (int, error)\<close>: when not started,
  the prefix is written first, and a failure of that write returns \<open>0\<close> and the error;
  then the bytes are written and the destination's result is returned as it is.
\<close>

definition writeOnce ::
  "'s writer \<Rightarrow> 's prefixWriter \<Rightarrow> string \<Rightarrow> (nat \<times> error option) \<times> 's prefixWriter" where
  "writeOnce wr pw p =
     (if \<not> started pw then
        (case wr (w pw) (prefix pw) of
           ((_, Some err), s1) \<Rightarrow> ((0, Some err), pw\<lparr>w := s1\<rparr>)
         | ((_, None), s1) \<Rightarrow>
             (case wr s1 p of (r, s2) \<Rightarrow> (r, pw\<lparr>w := s2\<rparr>)))
      else
        (case wr (w pw) p of (r, s2) \<Rightarrow> (r, pw\<lparr>w := s2\<rparr>)))"

text \<open>
  The inner loop of \<^verbatim>\<open>Write\<close>: the least index \<open>i \<ge> start\<close> with
  \<^verbatim>\<open>p[i] == '\n'\<close>; \<open>None\<close> stands for the source's \<^verbatim>\<open>newlineIdx == -1\<close>.
\<close>

function findNewline :: "string \<Rightarrow> nat \<Rightarrow> nat option" where
  "findNewline p i =
     (if i < length p then (if p ! i = nl then Some i else findNewline p (i + 1))
      else None)"
  by pat_completeness auto
termination
  by (relation "measure (\<lambda>(p, i). length p - i)") auto

declare findNewline.simps [simp del]

lemma findNewline_bounds:
  "findNewline p i = Some k \<Longrightarrow> i \<le> k \<and> k < length p \<and> p ! k = nl"
proof (induction p i rule: findNewline.induct)
  case (1 p i)
  show ?case
  proof (cases "i < length p \<and> p ! i \<noteq> nl")
    case True
    with "1.prems" have "findNewline p (i + 1) = Some k"
      by (simp add: findNewline.simps [of p i])
    with "1.IH" True show ?thesis by fastforce
  next
    case False
    with "1.prems" show ?thesis
      by (auto simp: findNewline.simps [of p i] split: if_splits)
  qed
qed

text \<open>
  \<^verbatim>\<open>func (pw *prefixWriter) Write(p []byte) (int, error)\<close>, the outer loop from
  the index \<open>start\<close>. \<^verbatim>\<open>p[start:]\<close> is \<open>drop start p\<close> and
  \<^verbatim>\<open>p[start : newlineIdx+1]\<close> is \<open>take (newlineIdx + 1 - start) (drop start p)\<close>.
\<close>

function Write_from ::
  "'s writer \<Rightarrow> 's prefixWriter \<Rightarrow> string \<Rightarrow> nat \<Rightarrow> (nat \<times> error option) \<times> 's prefixWriter" where
  "Write_from wr pw p start =
     (if start < length p then
        (case findNewline p start of
           None \<Rightarrow>
             (case writeOnce wr pw (drop start p) of
                ((n, None), pw') \<Rightarrow> ((start + n, None), pw'\<lparr>started := True\<rparr>)
              | ((n, Some err), pw') \<Rightarrow> ((start + n, Some err), pw'))
         | Some newlineIdx \<Rightarrow>
             (case writeOnce wr pw (take (newlineIdx + 1 - start) (drop start p)) of
                ((n, Some err), pw') \<Rightarrow> ((start + n, Some err), pw')
              | ((n, None), pw') \<Rightarrow>
                  Write_from wr (pw'\<lparr>started := False\<rparr>) p (newlineIdx + 1)))
      else ((length p, None), pw))"
  by pat_completeness auto
termination
proof (relation "measure (\<lambda>(wr, pw, p, start). length p - start)")
  show "wf (measure (\<lambda>(wr, pw, p, start). length p - start))"
    by simp
next
  fix wr :: "'s writer" and pw :: "'s prefixWriter" and p start newlineIdx x y n pw' e
  assume "start < length p" and "findNewline p start = Some newlineIdx"
  then have "start \<le> newlineIdx \<and> newlineIdx < length p"
    using findNewline_bounds by blast
  then show "((wr, pw'\<lparr>started := False\<rparr>, p, newlineIdx + 1), (wr, pw, p, start))
      \<in> measure (\<lambda>(wr, pw, p, start). length p - start)"
    by auto
qed

declare Write_from.simps [simp del]

definition Write ::
  "'s writer \<Rightarrow> 's prefixWriter \<Rightarrow> string \<Rightarrow> (nat \<times> error option) \<times> 's prefixWriter" where
  "Write wr pw p = Write_from wr pw p 0"

text \<open>
  A destination that accepts every write: it appends the bytes of each call to its
  log of calls and returns their count and no error.
\<close>

definition accept :: "string list writer" where
  "accept log p = ((length p, None), log @ [p])"

text \<open>
  A destination with room for a given number of bytes: a write that fits is accepted, one
  that does not fit takes the bytes that fit and fails.
\<close>

definition limited :: "(nat \<times> string list) writer" where
  "limited st p =
     (case st of (room, log) \<Rightarrow>
        if length p \<le> room then ((length p, None), (room - length p, log @ [p]))
        else ((room, Some ''short write''), (0, log @ [take room p])))"

text \<open>A fresh writer, as \<^verbatim>\<open>&prefixWriter{prefix: pre, w: dst}\<close> builds it.\<close>

definition newPrefixWriter :: "string \<Rightarrow> 's \<Rightarrow> 's prefixWriter" where
  "newPrefixWriter pre dst = \<lparr>started = False, prefix = pre, w = dst\<rparr>"

text \<open>A sequence of \<^verbatim>\<open>Write\<close> calls, one per chunk, that stops at the first error.\<close>

fun Writes ::
  "'s writer \<Rightarrow> 's prefixWriter \<Rightarrow> string list \<Rightarrow> error option \<times> 's prefixWriter" where
  "Writes wr pw [] = (None, pw)"
| "Writes wr pw (c # cs) =
     (case Write wr pw c of
        ((_, Some err), pw') \<Rightarrow> (Some err, pw')
      | ((_, None), pw') \<Rightarrow> Writes wr pw' cs)"

text \<open>
  The lines of a byte sequence, in the words of the specification: each maximal span of
  bytes up to and including the next newline and, when no newline remains, the trailing
  partial line.
\<close>

function spans :: "string \<Rightarrow> string list" where
  "spans p =
     (if p = [] then []
      else if nl \<in> set p
        then (takeWhile (\<lambda>c. c \<noteq> nl) p @ [nl]) # spans (tl (dropWhile (\<lambda>c. c \<noteq> nl) p))
        else [p])"
  by pat_completeness auto
termination
proof (relation "measure length")
  show "wf (measure length)" by simp
next
  fix p :: string
  assume "p \<noteq> []" and "nl \<in> set p"
  then have "dropWhile (\<lambda>c. c \<noteq> nl) p \<noteq> []"
    by simp
  then have "length (tl (dropWhile (\<lambda>c. c \<noteq> nl) p)) < length (dropWhile (\<lambda>c. c \<noteq> nl) p)"
    by simp
  also have "\<dots> \<le> length p"
    by (rule length_dropWhile_le)
  finally show "(tl (dropWhile (\<lambda>c. c \<noteq> nl) p), p) \<in> measure length"
    by simp
qed

declare spans.simps [simp del]

text \<open>
  The span-by-span rule of the specification: for each span, the prefix is written first
  if and only if the writer is not mid-line, then the span; a span that ends on a newline
  leaves the writer not mid-line and the scan goes on, the trailing partial line leaves it
  mid-line; a failure of the destination is returned at once with the bytes counted so far.
\<close>

fun spanRule ::
  "'s writer \<Rightarrow> 's prefixWriter \<Rightarrow> string list \<Rightarrow> (nat \<times> error option) \<times> 's prefixWriter" where
  "spanRule wr pw [] = ((0, None), pw)"
| "spanRule wr pw (s # ss) =
     (case writeOnce wr pw s of
        ((n, Some err), pw') \<Rightarrow> ((n, Some err), pw')
      | ((n, None), pw') \<Rightarrow>
          (if s \<noteq> [] \<and> last s = nl then
             (case spanRule wr (pw'\<lparr>started := False\<rparr>) ss of
                ((m, e), pw'') \<Rightarrow> ((length s + m, e), pw''))
           else ((n, None), pw'\<lparr>started := True\<rparr>)))"

text \<open>
  What an accepting destination receives for a list of spans, call by call, from a writer
  whose \<open>started\<close> flag is \<open>b\<close>.
\<close>

fun emit :: "string \<Rightarrow> bool \<Rightarrow> string list \<Rightarrow> string list" where
  "emit pre b [] = []"
| "emit pre b (s # ss) =
     (if b then [s] else [pre, s]) @
     (if s \<noteq> [] \<and> last s = nl then emit pre False ss else [])"

text \<open>
  The same output byte by byte: the prefix stands before a byte exactly when the writer
  is not mid-line there, and a byte leaves the writer mid-line unless it is a newline.
\<close>

fun render :: "string \<Rightarrow> bool \<Rightarrow> string \<Rightarrow> string" where
  "render pre b [] = []"
| "render pre b (c # cs) = (if b then [c] else pre @ [c]) @ render pre (c \<noteq> nl) cs"

text \<open>The \<open>started\<close> flag after the bytes \<open>p\<close> have been written.\<close>

definition midline :: "bool \<Rightarrow> string \<Rightarrow> bool" where
  "midline b p = (if p = [] then b else last p \<noteq> nl)"

text \<open>The same for the chunks of a sequence of \<^verbatim>\<open>Write\<close> calls.\<close>

fun emits :: "string \<Rightarrow> bool \<Rightarrow> string list \<Rightarrow> string list" where
  "emits pre b [] = []"
| "emits pre b (c # cs) = emit pre b (spans c) @ emits pre (midline b c) cs"

text \<open>
  The writes of data an accepting destination receives, grouped by line: a group ends
  with the write that ends on a newline.
\<close>

fun lineWrites :: "string list \<Rightarrow> string list list" where
  "lineWrites [] = []"
| "lineWrites (x # xs) =
     (if x \<noteq> [] \<and> last x = nl then [x] # lineWrites xs
      else (case lineWrites xs of [] \<Rightarrow> [[x]] | g # gs \<Rightarrow> (x # g) # gs))"

text \<open>
  The log of an accepting destination for the writes of data \<open>xs\<close>: the prefix is
  written before a write of data exactly when the write before it ended on a newline
  (or, for the first, when the \<open>started\<close> flag \<open>b\<close> is not set).
\<close>

fun emitPieces :: "string \<Rightarrow> bool \<Rightarrow> string list \<Rightarrow> string list" where
  "emitPieces pre b [] = []"
| "emitPieces pre b (x # xs) =
     (if b then [x] else [pre, x]) @ emitPieces pre (\<not> (x \<noteq> [] \<and> last x = nl)) xs"

text \<open>A span, whole or trailing: not empty, and with no newline before its last byte.\<close>

definition piece :: "string \<Rightarrow> bool" where
  "piece x = (x \<noteq> [] \<and> nl \<notin> set (butlast x))"

text \<open>
  The contract of \<^verbatim>\<open>io.Writer\<close>: a write returns a count of at most the length of
  its bytes, and a count below the length comes with an error.
\<close>

definition writerContract :: "'s writer \<Rightarrow> bool" where
  "writerContract wr =
     (\<forall>s q. fst (fst (wr s q)) \<le> length q \<and>
            (snd (fst (wr s q)) = None \<longrightarrow> fst (fst (wr s q)) = length q))"

section \<open>The library functions \<^verbatim>\<open>main.go\<close> calls\<close>

text \<open>\<^verbatim>\<open>strings.HasPrefix(s, prefix)\<close>, and its mirror image for the end of \<open>s\<close>.\<close>

definition HasPrefix :: "string \<Rightarrow> string \<Rightarrow> bool" where
  "HasPrefix s p = (length p \<le> length s \<and> take (length p) s = p)"

definition HasSuffix :: "string \<Rightarrow> string \<Rightarrow> bool" where
  "HasSuffix s p = (length p \<le> length s \<and> drop (length s - length p) s = p)"

text \<open>
  The UTF-8 encodings of the code points \<^verbatim>\<open>unicode.IsSpace\<close> accepts: tab, line feed,
  vertical tab, form feed, carriage return, space, U+0085, U+00A0, U+1680, U+2000 to
  U+200A, U+2028, U+2029, U+202F, U+205F and U+3000.
\<close>

definition spaceRunes :: "string list" where
  "spaceRunes =
     [[CHR 0x09], [CHR 0x0A], [CHR 0x0B], [CHR 0x0C], [CHR 0x0D], [CHR 0x20],
      [CHR 0xC2, CHR 0x85], [CHR 0xC2, CHR 0xA0],
      [CHR 0xE1, CHR 0x9A, CHR 0x80],
      [CHR 0xE2, CHR 0x80, CHR 0x80], [CHR 0xE2, CHR 0x80, CHR 0x81],
      [CHR 0xE2, CHR 0x80, CHR 0x82], [CHR 0xE2, CHR 0x80, CHR 0x83],
      [CHR 0xE2, CHR 0x80, CHR 0x84], [CHR 0xE2, CHR 0x80, CHR 0x85],
      [CHR 0xE2, CHR 0x80, CHR 0x86], [CHR 0xE2, CHR 0x80, CHR 0x87],
      [CHR 0xE2, CHR 0x80, CHR 0x88], [CHR 0xE2, CHR 0x80, CHR 0x89],
      [CHR 0xE2, CHR 0x80, CHR 0x8A],
      [CHR 0xE2, CHR 0x80, CHR 0xA8], [CHR 0xE2, CHR 0x80, CHR 0xA9],
      [CHR 0xE2, CHR 0x80, CHR 0xAF],
      [CHR 0xE2, CHR 0x81, CHR 0x9F],
      [CHR 0xE3, CHR 0x80, CHR 0x80]]"

lemma spaceRunes_nonempty: "e \<in> set spaceRunes \<Longrightarrow> e \<noteq> []"
  by (auto simp: spaceRunes_def)

text \<open>
  \<^verbatim>\<open>strings.TrimSpace\<close> and \<^verbatim>\<open>bytes.TrimSpace\<close>: the white space code points at
  the start are removed, then those at the end. A byte sequence decodes to a white space
  code point exactly when it is that code point's encoding, so the functions strip
  encodings for as long as one stands at the start (at the end).
\<close>

function trimLeft :: "string \<Rightarrow> string" where
  "trimLeft s =
     (case find (HasPrefix s) spaceRunes of
        None \<Rightarrow> s
      | Some e \<Rightarrow> trimLeft (drop (length e) s))"
  by pat_completeness auto
termination
proof (relation "measure length")
  show "wf (measure length)" by simp
next
  fix s e :: string
  assume "find (HasPrefix s) spaceRunes = Some e"
  then have "e \<in> set spaceRunes" and "HasPrefix s e"
    by (auto simp: find_Some_iff)
  then have "e \<noteq> []" and "length e \<le> length s"
    by (auto simp: spaceRunes_nonempty HasPrefix_def)
  then show "(drop (length e) s, s) \<in> measure length"
    by (cases e) auto
qed

declare trimLeft.simps [simp del]

function trimRight :: "string \<Rightarrow> string" where
  "trimRight s =
     (case find (HasSuffix s) spaceRunes of
        None \<Rightarrow> s
      | Some e \<Rightarrow> trimRight (take (length s - length e) s))"
  by pat_completeness auto
termination
proof (relation "measure length")
  show "wf (measure length)" by simp
next
  fix s e :: string
  assume "find (HasSuffix s) spaceRunes = Some e"
  then have "e \<in> set spaceRunes" and "HasSuffix s e"
    by (auto simp: find_Some_iff)
  then have "e \<noteq> []" and "length e \<le> length s"
    by (auto simp: spaceRunes_nonempty HasSuffix_def)
  then show "(take (length s - length e) s, s) \<in> measure length"
    by (cases e) auto
qed

declare trimRight.simps [simp del]

definition TrimSpace :: "string \<Rightarrow> string" where
  "TrimSpace s = trimRight (trimLeft s)"

text \<open>
  \<^verbatim>\<open>bufio.Scanner\<close> with its default split function \<^verbatim>\<open>ScanLines\<close> over a
  \<^verbatim>\<open>bytes.Reader\<close>: the tokens that the successive \<^verbatim>\<open>Scan\<close> calls yield and the
  value of \<^verbatim>\<open>Err\<close> afterwards. A line ends at a newline, one trailing carriage return
  is dropped, and a last line without newline is a token when it is not empty. The buffer
  grows to \<^verbatim>\<open>MaxScanTokenSize\<close> bytes and no further: a line of that many bytes before
  its newline (or before the end of the input) stops the scan with
  \<^verbatim>\<open>ErrTooLong\<close>.
\<close>

definition maxTokenSize :: nat where
  "maxTokenSize = 64 * 1024"

definition dropCR :: "string \<Rightarrow> string" where
  "dropCR d = (if d \<noteq> [] \<and> last d = CHR 0x0D then butlast d else d)"

function scanLines :: "string \<Rightarrow> string list \<times> error option" where
  "scanLines d =
     (if d = [] then ([], None)
      else if maxTokenSize \<le> length (takeWhile (\<lambda>c. c \<noteq> nl) d) then
        ([], Some ''bufio.Scanner: token too long'')
      else if nl \<in> set d then
        (case scanLines (tl (dropWhile (\<lambda>c. c \<noteq> nl) d)) of
           (ts, e) \<Rightarrow> (dropCR (takeWhile (\<lambda>c. c \<noteq> nl) d) # ts, e))
      else ([dropCR d], None))"
  by pat_completeness auto
termination
proof (relation "measure length")
  show "wf (measure length)" by simp
next
  fix d :: string
  assume "d \<noteq> []" and "nl \<in> set d"
  then have "dropWhile (\<lambda>c. c \<noteq> nl) d \<noteq> []"
    by simp
  then have "length (tl (dropWhile (\<lambda>c. c \<noteq> nl) d)) < length (dropWhile (\<lambda>c. c \<noteq> nl) d)"
    by simp
  also have "\<dots> \<le> length d"
    by (rule length_dropWhile_le)
  finally show "(tl (dropWhile (\<lambda>c. c \<noteq> nl) d), d) \<in> measure length"
    by simp
qed

declare scanLines.simps [simp del]

text \<open>
  \<^verbatim>\<open>defaultBranchRegexp.FindSubmatch(out)\<close> for the pattern
  \<^verbatim>\<open>HEAD branch: (.*)\<close>: the leftmost occurrence of the literal text, and as the
  group the bytes after it up to the end of the line (\<^verbatim>\<open>.\<close> matches no newline).
  \<open>None\<close> is the \<^verbatim>\<open>nil\<close> of no match, \<open>Some g\<close> a result of length two with
  the group \<open>g\<close>.
\<close>

fun FindSubmatch :: "string \<Rightarrow> string option" where
  "FindSubmatch [] = None"
| "FindSubmatch (c # cs) =
     (if HasPrefix (c # cs) ''HEAD branch: ''
      then Some (takeWhile (\<lambda>x. x \<noteq> nl) (drop (length ''HEAD branch: '') (c # cs)))
      else FindSubmatch cs)"

section \<open>The command runner and the orchestrator\<close>

text \<open>The flags \<^verbatim>\<open>-f\<close> and \<^verbatim>\<open>-v\<close> after \<^verbatim>\<open>flag.Parse()\<close>.\<close>

record config =
  force :: bool
  verbose :: bool

text \<open>
  One run of a subprocess as \<^verbatim>\<open>cmd.Run()\<close> sees it: the chunks the process writes
  to its standard output and to its standard error, in the order and the sizes in which
  the copying of \<^verbatim>\<open>os/exec\<close> hands them on, and the result of \<^verbatim>\<open>Run\<close> (an
  error for a non-zero exit status, a failed start or the expired deadline).
\<close>

record proc =
  p_stdout :: "string list"
  p_stderr :: "string list"
  p_err :: "error option"

text \<open>
  The machine outside the program: \<^verbatim>\<open>exec.LookPath\<close>, and the behaviour of a
  subprocess given the argument vectors of the subprocesses run before it and its own.
\<close>

record env =
  lookPath :: "string \<Rightarrow> error + string"
  run :: "string list list \<Rightarrow> string list \<Rightarrow> proc"

text \<open>
  What the program has done so far: the writes \<^verbatim>\<open>os.Stdout\<close> and \<^verbatim>\<open>os.Stderr\<close>
  have received (both accept every write) and the argument vectors of the subprocesses.
\<close>

record world =
  os_stdout :: "string list"
  os_stderr :: "string list"
  invoked :: "string list list"

text \<open>A call either returns a value or ends the process with \<^verbatim>\<open>os.Exit(code)\<close>.\<close>

datatype 'a outcome = Exit nat | Ret 'a

text \<open>
  \<^verbatim>\<open>cmd.String()\<close> of \<^verbatim>\<open>os/exec\<close>: the resolved path (the arguments as given when
  the path was not resolved), then each further argument after one space, unquoted.
\<close>

definition cmdString :: "error + string \<Rightarrow> string \<Rightarrow> string list \<Rightarrow> string" where
  "cmdString lp name args =
     (case lp of Inl _ \<Rightarrow> name | Inr path \<Rightarrow> path) @ concat (map (\<lambda>a. CHR '' '' # a) args)"

text \<open>
  \<^verbatim>\<open>func runCmd(ctx context.Context, name string, args ...string) []byte\<close>. The
  deadline of \<open>ctx\<close> is part of the environment: its expiry is one of the errors of
  \<open>p_err\<close>. A path that \<^verbatim>\<open>exec.Command\<close> could not resolve makes \<^verbatim>\<open>Run\<close>
  return that error without starting a process. Each chunk of the standard error goes
  through a fresh prefix writer to \<^verbatim>\<open>os.Stderr\<close>; each chunk of the standard output
  goes to the buffer and, when verbose, through a second fresh prefix writer to
  \<^verbatim>\<open>os.Stdout\<close>. Both streams accept every write, so the copying adds no error to
  that of the process.
\<close>

definition runCmd ::
  "config \<Rightarrow> env \<Rightarrow> string \<Rightarrow> string list \<Rightarrow> world \<Rightarrow> string outcome \<times> world" where
  "runCmd cfg ev name args wld =
     (let lp = lookPath ev name;
          w1 = (if verbose cfg
                then wld\<lparr>os_stdout := os_stdout wld @ [''[cmd] '' @ cmdString lp name args @ [nl]]\<rparr>
                else wld);
          pr = (case lp of
                  Inl e \<Rightarrow> \<lparr>p_stdout = [], p_stderr = [], p_err = Some e\<rparr>
                | Inr _ \<Rightarrow> run ev (invoked w1) (name # args));
          w2 = w1\<lparr>invoked := invoked w1 @ [name # args]\<rparr>;
          w3 = w2\<lparr>os_stderr :=
                 w (snd (Writes accept (newPrefixWriter ''[cmd][stderr] '' (os_stderr w2))
                                (p_stderr pr)))\<rparr>;
          w4 = (if verbose cfg
                then w3\<lparr>os_stdout :=
                       w (snd (Writes accept (newPrefixWriter ''[cmd][stdout] '' (os_stdout w3))
                                      (p_stdout pr)))\<rparr>
                else w3);
          stdout = concat (p_stdout pr)
      in case p_err pr of
           Some err \<Rightarrow>
             (Exit 1,
              w4\<lparr>os_stderr := os_stderr w4 @
                 [''[error] error running command '' @ cmdString lp name args @ '', '' @ err @ [nl]]\<rparr>)
         | None \<Rightarrow> (Ret stdout, w4))"

definition runCmdDefaultTimeout ::
  "config \<Rightarrow> env \<Rightarrow> string \<Rightarrow> string list \<Rightarrow> world \<Rightarrow> string outcome \<times> world" where
  "runCmdDefaultTimeout cfg ev name args wld = runCmd cfg ev name args wld"

definition getDefaultBranch :: "config \<Rightarrow> env \<Rightarrow> world \<Rightarrow> string outcome \<times> world" where
  "getDefaultBranch cfg ev wld =
     (case runCmdDefaultTimeout cfg ev ''git'' [''remote'', ''show'', ''origin''] wld of
        (Exit c, w1) \<Rightarrow> (Exit c, w1)
      | (Ret out, w1) \<Rightarrow>
          (case FindSubmatch out of
             None \<Rightarrow>
               (Exit 1,
                w1\<lparr>os_stderr := os_stderr w1 @ [''[error] failed to extract default branch'']\<rparr>)
           | Some g \<Rightarrow> (Ret (TrimSpace g), w1)))"

definition getCurrentBranch :: "config \<Rightarrow> env \<Rightarrow> world \<Rightarrow> string outcome \<times> world" where
  "getCurrentBranch cfg ev wld =
     (case runCmdDefaultTimeout cfg ev ''git'' [''rev-parse'', ''--abbrev-ref'', ''HEAD''] wld of
        (Exit c, w1) \<Rightarrow> (Exit c, w1)
      | (Ret out, w1) \<Rightarrow> (Ret (TrimSpace out), w1))"

text \<open>
  The loop of \<^verbatim>\<open>getMergedBranches\<close> over the tokens of the scanner, \<open>branches\<close>
  being the slice built so far.
\<close>

fun collectBranches :: "string list \<Rightarrow> string list \<Rightarrow> string list" where
  "collectBranches branches [] = branches"
| "collectBranches branches (t # ts) =
     (let line = TrimSpace t
      in if \<not> HasPrefix line ''* ''
         then collectBranches (branches @ [line]) ts
         else collectBranches branches ts)"

definition getMergedBranches :: "config \<Rightarrow> env \<Rightarrow> world \<Rightarrow> string list outcome \<times> world" where
  "getMergedBranches cfg ev wld =
     (case runCmdDefaultTimeout cfg ev ''git'' [''branch'', ''--merged''] wld of
        (Exit c, w1) \<Rightarrow> (Exit c, w1)
      | (Ret out, w1) \<Rightarrow>
          (case scanLines out of
             (tokens, scanErr) \<Rightarrow>
               (Ret (collectBranches [] tokens),
                (case scanErr of
                   None \<Rightarrow> w1
                 | Some err \<Rightarrow>
                     w1\<lparr>os_stderr := os_stderr w1 @ [''[error] scanner error '' @ err @ [nl]]\<rparr>))))"

definition deleteBranch :: "config \<Rightarrow> env \<Rightarrow> string \<Rightarrow> world \<Rightarrow> unit outcome \<times> world" where
  "deleteBranch cfg ev branch wld =
     (case runCmdDefaultTimeout cfg ev ''git'' [''branch'', ''-d'', branch] wld of
        (Exit c, w1) \<Rightarrow> (Exit c, w1)
      | (Ret _, w1) \<Rightarrow> (Ret (), w1))"

text \<open>The loop of \<^verbatim>\<open>main\<close> over \<^verbatim>\<open>mergedBranches\<close>.\<close>

fun deleteLoop :: "config \<Rightarrow> env \<Rightarrow> string list \<Rightarrow> world \<Rightarrow> unit outcome \<times> world" where
  "deleteLoop cfg ev [] wld = (Ret (), wld)"
| "deleteLoop cfg ev (branch # rest) wld =
     (let msg = (if \<not> force cfg then ''[would delete]'' else ''[deleting]'');
          w1 = wld\<lparr>os_stdout := os_stdout wld @ [msg @ '' '' @ branch @ [nl]]\<rparr>
      in if force cfg then
           (case deleteBranch cfg ev branch w1 of
              (Exit c, w2) \<Rightarrow> (Exit c, w2)
            | (Ret _, w2) \<Rightarrow> deleteLoop cfg ev rest w2)
         else deleteLoop cfg ev rest w1)"

text \<open>
  \<^verbatim>\<open>func main()\<close>: the exit status of the process (\<open>0\<close> when \<^verbatim>\<open>main\<close> returns)
  and the world it leaves.
\<close>

definition refusal :: "string \<Rightarrow> string \<Rightarrow> string" where
  "refusal currentBranch defaultBranch =
     ''[error] Refusing to run '' @ [CHR 0x60] @ ''git-clean'' @ [CHR 0x60] @
     '' without being on the default branch. Currently on branch '' @ currentBranch @
     ''. Default branch '' @ defaultBranch @ ''.'' @ [nl]"

definition main :: "config \<Rightarrow> env \<Rightarrow> world \<Rightarrow> nat \<times> world" where
  "main cfg ev wld =
     (case getCurrentBranch cfg ev wld of
        (Exit c, w1) \<Rightarrow> (c, w1)
      | (Ret currentBranch, w1) \<Rightarrow>
          (case getDefaultBranch cfg ev w1 of
             (Exit c, w2) \<Rightarrow> (c, w2)
           | (Ret defaultBranch, w2) \<Rightarrow>
               if currentBranch \<noteq> defaultBranch then
                 (1, w2\<lparr>os_stderr := os_stderr w2 @ [refusal currentBranch defaultBranch]\<rparr>)
               else
                 (case getMergedBranches cfg ev w2 of
                    (Exit c, w3) \<Rightarrow> (c, w3)
                  | (Ret mergedBranches, w3) \<Rightarrow>
                      (case deleteLoop cfg ev mergedBranches w3 of
                         (Exit c, w4) \<Rightarrow> (c, w4)
                       | (Ret _, w4) \<Rightarrow> (0, w4)))))"

definition world0 :: world where
  "world0 = \<lparr>os_stdout = [], os_stderr = [], invoked = []\<rparr>"

text \<open>
  A repository for the scenarios: \<open>cur\<close> is checked out, the remote's default branch is
  \<open>dflt\<close>, \<^verbatim>\<open>git branch --merged\<close> prints \<open>listing\<close>, and a delete succeeds
  exactly for a name in \<open>deletable\<close>.
\<close>

definition repoRun :: "string \<Rightarrow> string \<Rightarrow> string \<Rightarrow> string list \<Rightarrow> string list list \<Rightarrow> string list \<Rightarrow> proc" where
  "repoRun cur dflt listing deletable hist argv =
     (if argv = [''git'', ''rev-parse'', ''--abbrev-ref'', ''HEAD'']
        then \<lparr>p_stdout = [cur @ [nl]], p_stderr = [], p_err = None\<rparr>
      else if argv = [''git'', ''remote'', ''show'', ''origin'']
        then \<lparr>p_stdout = [''* remote origin'' @ [nl] @ ''  HEAD branch: '' @ dflt @ [nl]],
              p_stderr = [], p_err = None\<rparr>
      else if argv = [''git'', ''branch'', ''--merged'']
        then \<lparr>p_stdout = [listing], p_stderr = [], p_err = None\<rparr>
      else if take 3 argv = [''git'', ''branch'', ''-d''] \<and> length argv = 4 \<and> argv ! 3 \<in> set deletable
        then \<lparr>p_stdout = [''Deleted branch '' @ argv ! 3 @ ''.'' @ [nl]], p_stderr = [], p_err = None\<rparr>
      else \<lparr>p_stdout = [], p_stderr = [''error: branch not found.'' @ [nl]],
            p_err = Some ''exit status 1''\<rparr>)"

definition repo :: "string \<Rightarrow> string \<Rightarrow> string \<Rightarrow> string list \<Rightarrow> env" where
  "repo cur dflt listing deletable =
     \<lparr>lookPath = (\<lambda>name. Inr (''/usr/bin/'' @ name)), run = repoRun cur dflt listing deletable\<rparr>"

section \<open>The scan of \<^verbatim>\<open>Write\<close>, span by span\<close>

lemma spans_Nil [simp]: "spans [] = []"
  by (simp add: spans.simps [of "[]"])

lemma newPrefixWriter_sel [simp]:
  "started (newPrefixWriter pre dst) = False"
  "prefix (newPrefixWriter pre dst) = pre"
  "w (newPrefixWriter pre dst) = dst"
  by (simp_all add: newPrefixWriter_def)

lemma findNewline_None: "findNewline p i = None \<longleftrightarrow> nl \<notin> set (drop i p)"
proof (induction p i rule: findNewline.induct)
  case (1 p i)
  show ?case
  proof (cases "i < length p")
    case True
    then have d: "drop i p = p ! i # drop (i + 1) p"
      by (simp add: Cons_nth_drop_Suc)
    show ?thesis
      using True "1.IH" by (auto simp: findNewline.simps [of p i] d)
  next
    case False
    then show ?thesis by (simp add: findNewline.simps [of p i])
  qed
qed

lemma findNewline_Some:
  "findNewline p i = Some k \<Longrightarrow>
     take (k + 1 - i) (drop i p) = takeWhile (\<lambda>c. c \<noteq> nl) (drop i p) @ [nl] \<and>
     drop (k + 1) p = tl (dropWhile (\<lambda>c. c \<noteq> nl) (drop i p))"
proof (induction p i rule: findNewline.induct)
  case (1 p i)
  from "1.prems" have lt: "i < length p"
    by (simp add: findNewline.simps [of p i] split: if_splits)
  then have d: "drop i p = p ! i # drop (i + 1) p"
    by (simp add: Cons_nth_drop_Suc)
  show ?case
  proof (cases "p ! i = nl")
    case True
    with "1.prems" lt have "k = i"
      by (simp add: findNewline.simps [of p i])
    with True d show ?thesis by simp
  next
    case False
    with "1.prems" lt have r: "findNewline p (i + 1) = Some k"
      by (simp add: findNewline.simps [of p i])
    then have "i + 1 \<le> k" using findNewline_bounds by blast
    then have "k + 1 - i = Suc (k + 1 - (i + 1))" by simp
    with "1.IH" [OF lt False r] False d show ?thesis by simp
  qed
qed

lemma Write_from_spans:
  "start \<le> length p \<Longrightarrow>
     Write_from wr pw p start =
       (case spanRule wr pw (spans (drop start p)) of ((m, e), pw') \<Rightarrow> ((start + m, e), pw'))"
proof (induction wr pw p start rule: Write_from.induct)
  case (1 wr pw p start)
  show ?case
  proof (cases "start < length p")
    case False
    with "1.prems" have "start = length p" by simp
    then show ?thesis
      by (simp add: Write_from.simps [of wr pw p "length p"] spans.simps [of "[]"])
  next
    case lt: True
    then have ne: "drop start p \<noteq> []" by simp
    show ?thesis
    proof (cases "findNewline p start")
      case None
      then have nomem: "nl \<notin> set (drop start p)" by (simp add: findNewline_None)
      with ne have sp: "spans (drop start p) = [drop start p]"
        by (simp add: spans.simps [of "drop start p"])
      from nomem ne have "last (drop start p) \<noteq> nl"
        using last_in_set by metis
      then show ?thesis
        using lt None
        by (auto simp: Write_from.simps [of wr pw p start] sp split: prod.splits option.splits)
    next
      case (Some k)
      let ?s = "take (k + 1 - start) (drop start p)"
      from Some have b: "start \<le> k" "k < length p"
        using findNewline_bounds by blast+
      from Some have "findNewline p start \<noteq> None" by simp
      then have mem: "nl \<in> set (drop start p)" by (simp add: findNewline_None)
      from findNewline_Some [OF Some]
      have s: "?s = takeWhile (\<lambda>c. c \<noteq> nl) (drop start p) @ [nl]"
        and r: "drop (k + 1) p = tl (dropWhile (\<lambda>c. c \<noteq> nl) (drop start p))"
        by simp_all
      from ne mem s r have sp: "spans (drop start p) = ?s # spans (drop (k + 1) p)"
        by (simp add: spans.simps [of "drop start p"])
      have len: "length ?s = k + 1 - start" using b by simp
      have last: "?s \<noteq> [] \<and> last ?s = nl" unfolding s by simp
      show ?thesis
      proof (cases "writeOnce wr pw ?s")
        case (Pair res pw')
        obtain n err where res: "res = (n, err)" by (cases res)
        show ?thesis
        proof (cases err)
          case (Some e)
          with Pair res lt \<open>findNewline p start = Some k\<close> show ?thesis
            by (simp add: Write_from.simps [of wr pw p start] sp)
        next
          case None
          have ih: "Write_from wr (pw'\<lparr>started := False\<rparr>) p (k + 1) =
            (case spanRule wr (pw'\<lparr>started := False\<rparr>) (spans (drop (k + 1) p)) of
               ((m, e), pw'') \<Rightarrow> ((k + 1 + m, e), pw''))"
            using "1.IH" [OF lt \<open>findNewline p start = Some k\<close> _ _ _ _ ] Pair res None b
            by simp
          have "Write_from wr pw p start = Write_from wr (pw'\<lparr>started := False\<rparr>) p (k + 1)"
            using Pair res None lt \<open>findNewline p start = Some k\<close>
            by (simp add: Write_from.simps [of wr pw p start])
          also note ih
          finally show ?thesis
            using Pair res None last len b
            by (simp add: sp split: prod.splits)
        qed
      qed
    qed
  qed
qed

lemma midline_append: "midline b (p @ q) = midline (midline b p) q"
  by (simp add: midline_def)

lemma render_append: "render pre b (p @ q) = render pre b p @ render pre (midline b p) q"
  by (induction p arbitrary: b) (simp_all add: midline_def)

lemma render_no_nl: "nl \<notin> set s \<Longrightarrow> render pre True s = s"
  by (induction s) auto

lemma render_partial: "nl \<notin> set s \<Longrightarrow> s \<noteq> [] \<Longrightarrow> render pre b s = (if b then [] else pre) @ s"
  by (cases s) (auto simp: render_no_nl)

lemma midline_no_nl: "nl \<notin> set s \<Longrightarrow> s \<noteq> [] \<Longrightarrow> midline b s"
  by (metis midline_def last_in_set)

lemma render_span: "nl \<notin> set s \<Longrightarrow> render pre b (s @ [nl]) = (if b then [] else pre) @ s @ [nl]"
  by (cases "s = []") (simp_all add: render_append render_partial midline_no_nl)

lemma split_at_nl:
  "nl \<in> set p \<Longrightarrow> p = (takeWhile (\<lambda>c. c \<noteq> nl) p @ [nl]) @ tl (dropWhile (\<lambda>c. c \<noteq> nl) p)"
proof -
  assume "nl \<in> set p"
  then have ne: "dropWhile (\<lambda>c. c \<noteq> nl) p \<noteq> []" by simp
  then have "hd (dropWhile (\<lambda>c. c \<noteq> nl) p) = nl"
    using hd_dropWhile [of "\<lambda>c. c \<noteq> nl" p] by simp
  with ne have "dropWhile (\<lambda>c. c \<noteq> nl) p = nl # tl (dropWhile (\<lambda>c. c \<noteq> nl) p)"
    by (cases "dropWhile (\<lambda>c. c \<noteq> nl) p") simp_all
  then have "takeWhile (\<lambda>c. c \<noteq> nl) p @ nl # tl (dropWhile (\<lambda>c. c \<noteq> nl) p) = p"
    using takeWhile_dropWhile_id [of "\<lambda>c. c \<noteq> nl" p] by simp
  then show ?thesis by simp
qed

lemma takeWhile_no_nl: "nl \<notin> set (takeWhile (\<lambda>c. c \<noteq> nl) p)"
  using set_takeWhileD by fastforce

lemma concat_spans: "concat (spans p) = p"
proof (induction p rule: spans.induct)
  case (1 p)
  show ?case
  proof (cases "p \<noteq> [] \<and> nl \<in> set p")
    case True
    then have "concat (spans p) =
        (takeWhile (\<lambda>c. c \<noteq> nl) p @ [nl]) @ concat (spans (tl (dropWhile (\<lambda>c. c \<noteq> nl) p)))"
      by (simp add: spans.simps [of p])
    also have "\<dots> = (takeWhile (\<lambda>c. c \<noteq> nl) p @ [nl]) @ tl (dropWhile (\<lambda>c. c \<noteq> nl) p)"
      using "1.IH" True by simp
    also have "\<dots> = p" using split_at_nl True by metis
    finally show ?thesis .
  next
    case False
    then show ?thesis by (auto simp: spans.simps [of p])
  qed
qed

lemma concat_emit_spans: "concat (emit pre b (spans p)) = render pre b p"
proof (induction p arbitrary: b rule: spans.induct)
  case (1 p)
  show ?case
  proof (cases "p \<noteq> [] \<and> nl \<in> set p")
    case True
    let ?s = "takeWhile (\<lambda>c. c \<noteq> nl) p"
    let ?r = "tl (dropWhile (\<lambda>c. c \<noteq> nl) p)"
    from True have p: "p = (?s @ [nl]) @ ?r" using split_at_nl by blast
    have "concat (emit pre b (spans p)) = ((if b then [] else pre) @ ?s @ [nl]) @ concat (emit pre False (spans ?r))"
      using True by (simp add: spans.simps [of p])
    also have "\<dots> = render pre b (?s @ [nl]) @ render pre False ?r"
      using "1.IH" True by (simp add: render_span takeWhile_no_nl)
    also have "\<dots> = render pre b ((?s @ [nl]) @ ?r)"
      by (simp add: render_append midline_def)
    finally show ?thesis using p by simp
  next
    case False
    then show ?thesis
      by (cases "p = []") (simp_all add: spans.simps [of p] render_partial)
  qed
qed

lemma prefixed_spans: "concat (map (\<lambda>line. pre @ line) (spans p)) = render pre False p"
proof (induction p rule: spans.induct)
  case (1 p)
  show ?case
  proof (cases "p \<noteq> [] \<and> nl \<in> set p")
    case True
    let ?s = "takeWhile (\<lambda>c. c \<noteq> nl) p"
    let ?r = "tl (dropWhile (\<lambda>c. c \<noteq> nl) p)"
    from True have p: "p = (?s @ [nl]) @ ?r" using split_at_nl by blast
    have "concat (map (\<lambda>line. pre @ line) (spans p)) = (pre @ ?s @ [nl]) @ concat (map (\<lambda>line. pre @ line) (spans ?r))"
      using True by (simp add: spans.simps [of p])
    also have "\<dots> = render pre False (?s @ [nl]) @ render pre False ?r"
      using "1.IH" True by (simp add: render_span takeWhile_no_nl)
    also have "\<dots> = render pre False ((?s @ [nl]) @ ?r)"
      by (simp add: render_append midline_def)
    finally show ?thesis using p by simp
  next
    case False
    then show ?thesis
      by (cases "p = []") (simp_all add: spans.simps [of p] render_partial)
  qed
qed

lemma writeOnce_accept:
  "writeOnce accept pw s =
     ((length s, None), pw\<lparr>w := w pw @ (if started pw then [s] else [prefix pw, s])\<rparr>)"
  by (simp add: writeOnce_def accept_def)

lemma spanRule_accept:
  "spanRule accept pw (spans p) =
     ((length p, None),
      pw\<lparr>started := midline (started pw) p,
         w := w pw @ emit (prefix pw) (started pw) (spans p)\<rparr>)"
proof (induction p arbitrary: pw rule: spans.induct)
  case (1 p)
  show ?case
  proof (cases "p \<noteq> [] \<and> nl \<in> set p")
    case True
    let ?s = "takeWhile (\<lambda>c. c \<noteq> nl) p"
    let ?r = "tl (dropWhile (\<lambda>c. c \<noteq> nl) p)"
    from True have p: "p = (?s @ [nl]) @ ?r" using split_at_nl by blast
    have sp: "spans p = (?s @ [nl]) # spans ?r"
      using True by (simp add: spans.simps [of p])
    have len: "length p = length (?s @ [nl]) + length ?r"
      using arg_cong [OF p, of length] by (simp only: length_append)
    have mid: "midline (started pw) p = midline False ?r"
      using arg_cong [OF p, of "midline (started pw)"] by (simp only: midline_append) (simp add: midline_def)
    show ?thesis
      using "1.IH" True
      by (simp add: sp writeOnce_accept len mid)
  next
    case False
    then show ?thesis
      by (cases "p = []") (auto simp: spans.simps [of p] writeOnce_accept midline_def dest: last_in_set)
  qed
qed

lemma Write_accept:
  "Write accept pw p =
     ((length p, None),
      pw\<lparr>started := midline (started pw) p,
         w := w pw @ emit (prefix pw) (started pw) (spans p)\<rparr>)"
  by (simp add: Write_def Write_from_spans spanRule_accept)

lemma Writes_accept_eq:
  "Writes accept pw cs =
     (None, pw\<lparr>started := midline (started pw) (concat cs),
               w := w pw @ emits (prefix pw) (started pw) cs\<rparr>)"
proof (induction cs arbitrary: pw)
  case Nil
  show ?case by (simp add: midline_def)
next
  case (Cons c cs)
  show ?case by (simp add: Write_accept Cons.IH midline_append)
qed

lemma concat_emits: "concat (emits pre b cs) = render pre b (concat cs)"
  by (induction cs arbitrary: b) (simp_all add: concat_emit_spans render_append)

lemma spans_hd:
  "r \<noteq> [] \<Longrightarrow> spans r = hd (spans r) # tl (spans r)"
  by (simp add: spans.simps [of r])

lemma lines_tail:
  assumes "a \<noteq> []" and "last a = nl"
  shows "tl (dropWhile (\<lambda>c. c \<noteq> nl) a) = [] \<or> last (tl (dropWhile (\<lambda>c. c \<noteq> nl) a)) = nl"
proof -
  from assms have mem: "nl \<in> set a" using last_in_set by metis
  from split_at_nl [OF mem] assms show ?thesis
    by (metis last_appendR)
qed

lemma spans_append_lines:
  "a = [] \<or> last a = nl \<Longrightarrow> spans (a @ r) = spans a @ spans r"
proof (induction a rule: spans.induct)
  case (1 a)
  show ?case
  proof (cases "a = []")
    case True
    then show ?thesis by simp
  next
    case False
    with "1.prems" have la: "last a = nl" by simp
    with False have mem: "nl \<in> set a" using last_in_set by metis
    then have ne: "dropWhile (\<lambda>c. c \<noteq> nl) a \<noteq> []" by simp
    have tw: "takeWhile (\<lambda>c. c \<noteq> nl) (a @ r) = takeWhile (\<lambda>c. c \<noteq> nl) a"
      using mem by (simp add: takeWhile_append1 [of nl a])
    have dw: "tl (dropWhile (\<lambda>c. c \<noteq> nl) (a @ r)) = tl (dropWhile (\<lambda>c. c \<noteq> nl) a) @ r"
      using mem ne by (simp add: dropWhile_append1 [of nl a])
    have ih: "spans (tl (dropWhile (\<lambda>c. c \<noteq> nl) a) @ r) =
              spans (tl (dropWhile (\<lambda>c. c \<noteq> nl) a)) @ spans r"
      using "1.IH" [OF False mem] lines_tail [OF False la] by blast
    have "spans (a @ r) = (takeWhile (\<lambda>c. c \<noteq> nl) a @ [nl]) # spans (tl (dropWhile (\<lambda>c. c \<noteq> nl) a) @ r)"
      using False mem by (simp add: spans.simps [of "a @ r"] tw dw)
    also have "\<dots> = spans a @ spans r"
      using False mem ih by (simp add: spans.simps [of a])
    finally show ?thesis .
  qed
qed

lemma spans_lines_end:
  "a = [] \<or> last a = nl \<Longrightarrow> s \<in> set (spans a) \<Longrightarrow> s \<noteq> [] \<and> last s = nl"
proof (induction a rule: spans.induct)
  case (1 a)
  show ?case
  proof (cases "a = []")
    case True
    with "1.prems" show ?thesis by simp
  next
    case False
    with "1.prems" have la: "last a = nl" by simp
    with False have mem: "nl \<in> set a" using last_in_set by metis
    from "1.prems" False mem
    have "s = takeWhile (\<lambda>c. c \<noteq> nl) a @ [nl] \<or> s \<in> set (spans (tl (dropWhile (\<lambda>c. c \<noteq> nl) a)))"
      by (simp add: spans.simps [of a])
    then show ?thesis
    proof
      assume "s = takeWhile (\<lambda>c. c \<noteq> nl) a @ [nl]"
      then show ?thesis by simp
    next
      assume "s \<in> set (spans (tl (dropWhile (\<lambda>c. c \<noteq> nl) a)))"
      with "1.IH" [OF False mem] lines_tail [OF False la] show ?thesis by blast
    qed
  qed
qed

lemma spanRule_append:
  "(\<And>s. s \<in> set xs \<Longrightarrow> s \<noteq> [] \<and> last s = nl) \<Longrightarrow>
     spanRule wr pw (xs @ ys) =
       (case spanRule wr pw xs of
          ((n, Some e), pw1) \<Rightarrow> ((n, Some e), pw1)
        | ((n, None), pw1) \<Rightarrow>
            (case spanRule wr pw1 ys of ((m, err), pw2) \<Rightarrow> ((n + m, err), pw2)))"
proof (induction xs arbitrary: pw)
  case Nil
  then show ?case by (simp split: prod.splits)
next
  case (Cons x xs)
  then have x: "x \<noteq> [] \<and> last x = nl" and ih: "\<And>pw. spanRule wr pw (xs @ ys) =
       (case spanRule wr pw xs of
          ((n, Some e), pw1) \<Rightarrow> ((n, Some e), pw1)
        | ((n, None), pw1) \<Rightarrow>
            (case spanRule wr pw1 ys of ((m, err), pw2) \<Rightarrow> ((n + m, err), pw2)))"
    by simp_all
  show ?case
    using x by (simp add: ih split: prod.splits option.splits)
qed

lemma Write_spans: "Write wr pw p = spanRule wr pw (spans p)"
  by (simp add: Write_def Write_from_spans split: prod.splits)

lemma Write_append_lines:
  assumes "a = [] \<or> last a = nl"
  shows "Write wr pw (a @ r) =
       (case Write wr pw a of
          ((n, Some e), pw1) \<Rightarrow> ((n, Some e), pw1)
        | ((n, None), pw1) \<Rightarrow>
            (case Write wr pw1 r of ((m, err), pw2) \<Rightarrow> ((n + m, err), pw2)))"
  unfolding Write_spans
  using assms spans_lines_end [OF assms]
  by (simp add: spans_append_lines spanRule_append)

lemma writeOnce_contract:
  assumes "writerContract wr" and "writeOnce wr pw s = ((n, err), pw')"
  shows "n \<le> length s \<and> (err = None \<longrightarrow> n = length s)"
proof (cases "started pw")
  case True
  with assms(2) have "fst (wr (w pw) s) = (n, err)"
    by (auto simp: writeOnce_def split: prod.splits)
  with assms(1) [unfolded writerContract_def, rule_format, of "w pw" s] show ?thesis
    by simp
next
  case False
  obtain k e1 s1 where p: "wr (w pw) (prefix pw) = ((k, e1), s1)"
    by (metis prod.exhaust)
  show ?thesis
  proof (cases e1)
    case (Some e)
    with assms(2) False p show ?thesis by (auto simp: writeOnce_def)
  next
    case None
    with assms(2) False p have "fst (wr s1 s) = (n, err)"
      by (auto simp: writeOnce_def split: prod.splits)
    with assms(1) [unfolded writerContract_def, rule_format, of s1 s] show ?thesis
      by simp
  qed
qed

lemma spanRule_count:
  assumes c: "writerContract wr"
  shows "spanRule wr pw (spans p) = ((n, err), pw') \<Longrightarrow>
     n \<le> length p \<and> (err = None \<longrightarrow> n = length p)"
proof (induction p arbitrary: pw n err pw' rule: spans.induct)
  case (1 p)
  show ?case
  proof (cases "p \<noteq> [] \<and> nl \<in> set p")
    case True
    let ?s = "takeWhile (\<lambda>c. c \<noteq> nl) p @ [nl]"
    let ?r = "tl (dropWhile (\<lambda>c. c \<noteq> nl) p)"
    from True have p: "p = ?s @ ?r" using split_at_nl by blast
    have len: "length p = length ?s + length ?r"
      using arg_cong [OF p, of length] by (simp only: length_append)
    have sp: "spans p = ?s # spans ?r"
      using True by (simp add: spans.simps [of p])
    obtain k e1 pw1 where w1: "writeOnce wr pw ?s = ((k, e1), pw1)"
      by (metis prod.exhaust)
    from writeOnce_contract [OF c w1] have k: "k \<le> length ?s" by simp
    show ?thesis
    proof (cases e1)
      case (Some e)
      with "1.prems" w1 sp have "n = k" "err = Some e" by simp_all
      with k len show ?thesis by simp
    next
      case None
      obtain m e2 pw2 where r2: "spanRule wr (pw1\<lparr>started := False\<rparr>) (spans ?r) = ((m, e2), pw2)"
        by (metis prod.exhaust)
      from "1.prems" w1 sp None r2 have n: "n = length ?s + m" "err = e2"
        by simp_all
      from "1.IH" [OF _ _ r2] True have "m \<le> length ?r \<and> (e2 = None \<longrightarrow> m = length ?r)"
        by simp
      with n len show ?thesis by simp
    qed
  next
    case False
    show ?thesis
    proof (cases "p = []")
      case True
      with "1.prems" show ?thesis by simp
    next
      case ne: False
      with False have sp: "spans p = [p]" by (simp add: spans.simps [of p])
      obtain k e1 pw1 where w1: "writeOnce wr pw p = ((k, e1), pw1)"
        by (metis prod.exhaust)
      from writeOnce_contract [OF c w1] "1.prems" w1 sp show ?thesis
        by (cases e1) (auto split: if_splits)
    qed
  qed
qed

lemma lineWrites_Nil_iff: "lineWrites xs = [] \<longleftrightarrow> xs = []"
  by (cases xs) (auto split: list.splits)

lemma emitPieces_lineWrites:
  "(if b \<and> xs \<noteq> [] then [pre] else []) @ emitPieces pre b xs =
     concat (map (\<lambda>g. pre # g) (lineWrites xs))"
proof (induction xs arbitrary: b)
  case Nil
  show ?case by simp
next
  case (Cons x xs)
  show ?case
  proof (cases "x \<noteq> [] \<and> last x = nl")
    case True
    with Cons.IH [of False] show ?thesis by simp
  next
    case False
    show ?thesis
    proof (cases "xs = []")
      case True
      with False show ?thesis by simp
    next
      case ne: False
      then obtain g gs where g: "lineWrites xs = g # gs"
        using lineWrites_Nil_iff [of xs] by (cases "lineWrites xs") auto
      with Cons.IH [of True] ne have "emitPieces pre True xs = g @ concat (map (\<lambda>g. pre # g) gs)"
        by simp
      with False g show ?thesis by auto
    qed
  qed
qed

lemma spans_pieces: "x \<in> set (spans p) \<Longrightarrow> piece x"
proof (induction p rule: spans.induct)
  case (1 p)
  show ?case
  proof (cases "p \<noteq> [] \<and> nl \<in> set p")
    case True
    with "1.prems"
    have "x = takeWhile (\<lambda>c. c \<noteq> nl) p @ [nl] \<or> x \<in> set (spans (tl (dropWhile (\<lambda>c. c \<noteq> nl) p)))"
      by (simp add: spans.simps [of p])
    then show ?thesis
    proof
      assume "x = takeWhile (\<lambda>c. c \<noteq> nl) p @ [nl]"
      then show ?thesis by (simp add: piece_def takeWhile_no_nl)
    next
      assume "x \<in> set (spans (tl (dropWhile (\<lambda>c. c \<noteq> nl) p)))"
      with "1.IH" True show ?thesis by simp
    qed
  next
    case False
    with "1.prems" show ?thesis
      by (cases "p = []") (auto simp: spans.simps [of p] piece_def dest: in_set_butlastD)
  qed
qed

lemma spans_line: "nl \<notin> set s \<Longrightarrow> spans ((s @ [nl]) @ r) = (s @ [nl]) # spans r"
proof -
  assume n: "nl \<notin> set s"
  then have "takeWhile (\<lambda>c. c \<noteq> nl) ((s @ [nl]) @ r) = s"
    by (induction s) auto
  moreover from n have "dropWhile (\<lambda>c. c \<noteq> nl) ((s @ [nl]) @ r) = nl # r"
    by (induction s) auto
  ultimately show ?thesis
    by (simp add: spans.simps [of "s @ nl # r"])
qed

lemma spans_partial:
  assumes "nl \<notin> set x" and "x \<noteq> []" and "r \<noteq> []"
  shows "spans (x @ r) = (x @ hd (spans r)) # tl (spans r)"
proof (cases "nl \<in> set r")
  case True
  let ?s = "takeWhile (\<lambda>c. c \<noteq> nl) r"
  let ?t = "tl (dropWhile (\<lambda>c. c \<noteq> nl) r)"
  have r: "r = (?s @ [nl]) @ ?t" using split_at_nl [OF True] .
  have sr: "spans r = (?s @ [nl]) # spans ?t"
    using True assms(3) by (simp add: spans.simps [of r])
  have "x @ r = ((x @ ?s) @ [nl]) @ ?t"
    using r by (metis append.assoc)
  moreover have "nl \<notin> set (x @ ?s)"
    using assms(1) by (simp add: takeWhile_no_nl)
  ultimately have "spans (x @ r) = ((x @ ?s) @ [nl]) # spans ?t"
    using spans_line [of "x @ ?s" ?t] by simp
  with sr show ?thesis by simp
next
  case False
  with assms show ?thesis
    by (simp add: spans.simps [of r] spans.simps [of "x @ r"])
qed

lemma piece_cases:
  "piece x \<Longrightarrow> (\<exists>s. nl \<notin> set s \<and> x = s @ [nl]) \<or> (nl \<notin> set x \<and> \<not> (x \<noteq> [] \<and> last x = nl))"
proof -
  assume p: "piece x"
  then have ne: "x \<noteq> []" and nb: "nl \<notin> set (butlast x)"
    by (simp_all add: piece_def)
  show ?thesis
  proof (cases "last x = nl")
    case True
    with ne have "x = butlast x @ [nl]" by (metis append_butlast_last_id)
    with nb show ?thesis by blast
  next
    case False
    with ne nb have "nl \<notin> set x"
      by (metis append_butlast_last_id set_append Un_iff list.set(1) list.set(2) empty_iff insert_iff)
    with False show ?thesis by simp
  qed
qed

lemma lineWrites_spans:
  "(\<And>x. x \<in> set xs \<Longrightarrow> piece x) \<Longrightarrow> map concat (lineWrites xs) = spans (concat xs)"
proof (induction xs)
  case Nil
  show ?case by simp
next
  case (Cons x xs)
  then have px: "piece x" and ih: "map concat (lineWrites xs) = spans (concat xs)"
    by simp_all
  from piece_cases [OF px] show ?case
  proof
    assume "\<exists>s. nl \<notin> set s \<and> x = s @ [nl]"
    then obtain s where s: "nl \<notin> set s" "x = s @ [nl]" by blast
    then show ?thesis
      using ih spans_line [OF s(1), of "concat xs"] by simp
  next
    assume n: "nl \<notin> set x \<and> \<not> (x \<noteq> [] \<and> last x = nl)"
    from px have ne: "x \<noteq> []" by (simp add: piece_def)
    show ?thesis
    proof (cases "xs = []")
      case True
      with n ne show ?thesis by (simp add: spans.simps [of x])
    next
      case False
      then obtain g gs where g: "lineWrites xs = g # gs"
        using lineWrites_Nil_iff [of xs] by (cases "lineWrites xs") auto
      with ih have sp: "spans (concat xs) = concat g # map concat gs" by simp
      have "concat xs \<noteq> []"
      proof
        assume "concat xs = []"
        then have "spans (concat xs) = []" by (simp only: spans_Nil)
        with sp show False by simp
      qed
      from spans_partial [OF _ ne this] n sp
      have "spans (x @ concat xs) = (x @ concat g) # map concat gs" by simp
      with n g show ?thesis by simp
    qed
  qed
qed

lemma emit_emitPieces:
  "(\<And>x. x \<in> set (butlast ss) \<Longrightarrow> x \<noteq> [] \<and> last x = nl) \<Longrightarrow>
     emit pre b ss = emitPieces pre b ss"
proof (induction ss arbitrary: b)
  case Nil
  show ?case by simp
next
  case (Cons s ss)
  show ?case
  proof (cases "ss = []")
    case True
    then show ?thesis by simp
  next
    case False
    with Cons.prems have "s \<noteq> [] \<and> last s = nl" by simp
    moreover have "emit pre False ss = emitPieces pre False ss"
      using Cons.IH [of False] Cons.prems False by simp
    ultimately show ?thesis by simp
  qed
qed

lemma emitPieces_append:
  "emitPieces pre b (xs @ ys) =
     emitPieces pre b xs @
     emitPieces pre (if xs = [] then b else \<not> (last xs \<noteq> [] \<and> last (last xs) = nl)) ys"
  by (induction xs arbitrary: b) simp_all


lemma spans_butlast_nl: "x \<in> set (butlast (spans p)) \<Longrightarrow> x \<noteq> [] \<and> last x = nl"
proof (induction p rule: spans.induct)
  case (1 p)
  show ?case
  proof (cases "p \<noteq> [] \<and> nl \<in> set p")
    case True
    let ?r = "tl (dropWhile (\<lambda>c. c \<noteq> nl) p)"
    from True have sp: "spans p = (takeWhile (\<lambda>c. c \<noteq> nl) p @ [nl]) # spans ?r"
      by (simp add: spans.simps [of p])
    show ?thesis
    proof (cases "spans ?r = []")
      case e: True
      with "1.prems" sp show ?thesis by simp
    next
      case False
      with "1.prems" sp
      have "x = takeWhile (\<lambda>c. c \<noteq> nl) p @ [nl] \<or> x \<in> set (butlast (spans ?r))"
        by simp
      with "1.IH" True show ?thesis by auto
    qed
  next
    case False
    with "1.prems" show ?thesis
      by (cases "p = []") (simp_all add: spans.simps [of p])
  qed
qed

lemma spans_Nil_iff: "spans p = [] \<longleftrightarrow> p = []"
  by (simp add: spans.simps [of p])

lemma last_spans:
  assumes "c \<noteq> []"
  shows "last (spans c) \<noteq> [] \<and> last (last (spans c)) = last c"
proof -
  from assms have ne: "spans c \<noteq> []" by (simp add: spans_Nil_iff)
  then have "last (spans c) \<in> set (spans c)" by simp
  then have l: "last (spans c) \<noteq> []" using spans_pieces by (auto simp: piece_def)
  from ne have "spans c = butlast (spans c) @ [last (spans c)]" by simp
  then have "concat (spans c) = concat (butlast (spans c)) @ last (spans c)"
    by (metis concat_append concat.simps(1) concat.simps(2) append_Nil2)
  then have "c = concat (butlast (spans c)) @ last (spans c)"
    by (simp add: concat_spans)
  with l have "last c = last (last (spans c))"
    by (metis last_appendR)
  with l show ?thesis by simp
qed

lemma emits_emitPieces: "emits pre b cs = emitPieces pre b (concat (map spans cs))"
proof (induction cs arbitrary: b)
  case Nil
  show ?case by simp
next
  case (Cons c cs)
  have e: "emit pre b (spans c) = emitPieces pre b (spans c)"
    using spans_butlast_nl by (intro emit_emitPieces) blast
  have m: "(if spans c = [] then b else \<not> (last (spans c) \<noteq> [] \<and> last (last (spans c)) = nl)) =
      midline b c"
    using last_spans [of c] by (auto simp: midline_def spans_Nil_iff)
  show ?case
    by (simp add: e Cons.IH emitPieces_append m)
qed

lemma Write_Nil: "Write wr pw [] = ((0, None), pw)"
  by (simp add: Write_spans)

lemma Write_line:
  assumes "s \<noteq> []" and "last s = nl" and "spans s = [s]"
    and "writeOnce wr pw s = ((n, None), pwA)"
  shows "Write wr pw s = ((length s, None), pwA\<lparr>started := False\<rparr>)"
  using assms by (simp add: Write_spans)

lemma Write_fails_at:
  "spanRule wr pw (spans p) = ((k, Some e), pw') \<Longrightarrow>
     \<exists>a r pw1 n. p = a @ r \<and> (a = [] \<or> last a = nl) \<and> r \<noteq> [] \<and>
        Write wr pw a = ((length a, None), pw1) \<and>
        writeOnce wr pw1 (hd (spans r)) = ((n, Some e), pw') \<and> k = length a + n"
proof (induction p arbitrary: pw k rule: spans.induct)
  case (1 p)
  have ne: "p \<noteq> []"
    using "1.prems" by (cases "p = []") simp_all
  then have sp: "spans p = hd (spans p) # tl (spans p)"
    by (rule spans_hd)
  obtain n err1 pwA where w1: "writeOnce wr pw (hd (spans p)) = ((n, err1), pwA)"
    by (metis prod.exhaust)
  show ?case
  proof (cases err1)
    case (Some e1)
    from "1.prems" w1 Some have "k = n" "e = e1" "pw' = pwA"
      by (subst (asm) sp, simp)+
    with w1 Some ne show ?thesis
      by (intro exI [of _ "[]"] exI [of _ p] exI [of _ pw] exI [of _ n]) (simp add: Write_Nil)
  next
    case None
    show ?thesis
    proof (cases "nl \<in> set p")
      case False
      with ne have "spans p = [p]" by (simp add: spans.simps [of p])
      moreover from False ne have "last p \<noteq> nl" using last_in_set by metis
      ultimately show ?thesis
        using "1.prems" w1 None by (simp split: if_splits)
    next
      case True
      let ?s = "takeWhile (\<lambda>c. c \<noteq> nl) p @ [nl]"
      let ?r = "tl (dropWhile (\<lambda>c. c \<noteq> nl) p)"
      from True ne have spp: "spans p = ?s # spans ?r"
        by (simp add: spans.simps [of p])
      have p: "p = ?s @ ?r" using split_at_nl [OF True] .
      from w1 None spp have w1': "writeOnce wr pw ?s = ((n, None), pwA)" by simp
      obtain m where rest: "spanRule wr (pwA\<lparr>started := False\<rparr>) (spans ?r) = ((m, Some e), pw')"
        and k: "k = length ?s + m"
        using "1.prems" w1' by (simp add: spp split: prod.splits)
      from "1.IH" [OF ne True rest] obtain a' r' pw1 n' where
        d: "?r = a' @ r'" "a' = [] \<or> last a' = nl" "r' \<noteq> []"
          "Write wr (pwA\<lparr>started := False\<rparr>) a' = ((length a', None), pw1)"
          "writeOnce wr pw1 (hd (spans r')) = ((n', Some e), pw')" "m = length a' + n'"
        by blast
      have sps: "spans ?s = [?s]"
        using spans_line [of "takeWhile (\<lambda>c. c \<noteq> nl) p" "[]"] by (simp add: takeWhile_no_nl)
      have ws: "Write wr pw ?s = ((length ?s, None), pwA\<lparr>started := False\<rparr>)"
        using w1' sps by (intro Write_line) simp_all
      have "Write wr pw (?s @ a') = ((length ?s + length a', None), pw1)"
        using ws d(4) by (subst Write_append_lines) simp_all
      moreover have "p = (?s @ a') @ r'"
        using p d(1) by (metis append.assoc)
      moreover have "?s @ a' = [] \<or> last (?s @ a') = nl"
        using d(2) by auto
      ultimately show ?thesis
        using d(3,5,6) k
        by (intro exI [of _ "?s @ a'"] exI [of _ r'] exI [of _ pw1] exI [of _ n']) simp
    qed
  qed
qed

section \<open>The prefix writer over a destination that accepts every write\<close>

text \<open>
  Claim C1. Whatever the chunks of a sequence of \<^verbatim>\<open>Write\<close> calls on a fresh
  prefix writer are, when the destination accepts every write no call fails, and the
  writes the destination has received are, group after group, one write of the prefix
  followed by the writes of data of one line, where the groups are exactly the lines of
  the concatenated input, in order: each line is preceded by one write of the prefix, not
  by none and not by two. In bytes, the destination has received each line of the input
  behind one copy of the prefix.
\<close>

theorem prefix_once_per_line:
  "fst (Writes accept (newPrefixWriter pre []) chunks) = None \<and>
   w (snd (Writes accept (newPrefixWriter pre []) chunks)) =
     concat (map (\<lambda>g. pre # g) (lineWrites (concat (map spans chunks)))) \<and>
   map concat (lineWrites (concat (map spans chunks))) = spans (concat chunks) \<and>
   concat (w (snd (Writes accept (newPrefixWriter pre []) chunks))) =
     concat (map (\<lambda>line. pre @ line) (spans (concat chunks)))"
proof -
  have a: "w (snd (Writes accept (newPrefixWriter pre []) chunks)) =
      concat (map (\<lambda>g. pre # g) (lineWrites (concat (map spans chunks))))"
    using emitPieces_lineWrites [of False "concat (map spans chunks)" pre]
    by (simp add: Writes_accept_eq emits_emitPieces)
  have b: "map concat (lineWrites (concat (map spans chunks))) = spans (concat chunks)"
  proof -
    have "map concat (lineWrites (concat (map spans chunks))) =
        spans (concat (concat (map spans chunks)))"
      using spans_pieces by (intro lineWrites_spans) auto
    also have "concat (concat (map spans chunks)) = concat chunks"
      by (induction chunks) (simp_all add: concat_spans)
    finally show ?thesis .
  qed
  have c: "concat (w (snd (Writes accept (newPrefixWriter pre []) chunks))) =
      concat (map (\<lambda>line. pre @ line) (spans (concat chunks)))"
    by (simp add: Writes_accept_eq concat_emits prefixed_spans)
  from a b c show ?thesis
    by (simp add: Writes_accept_eq)
qed

text \<open>
  Claim C2. Feeding the chunks of a byte sequence one \<^verbatim>\<open>Write\<close> call at a time
  to a fresh prefix writer gives the accepting destination byte for byte what one
  \<^verbatim>\<open>Write\<close> call with the whole sequence gives it; and that one call is the
  span-by-span rule of the specification applied to the spans of the whole sequence.
\<close>

theorem chunking_invariant:
  "concat (w (snd (Writes accept (newPrefixWriter pre []) chunks))) =
     concat (w (snd (Write accept (newPrefixWriter pre []) (concat chunks)))) \<and>
   Write accept (newPrefixWriter pre []) (concat chunks) =
     spanRule accept (newPrefixWriter pre []) (spans (concat chunks))"
  by (simp add: Writes_accept_eq concat_emits Write_accept concat_emit_spans spanRule_accept)

text \<open>
  Claim C5. One \<^verbatim>\<open>Write\<close> call with the two lines \<^verbatim>\<open>"a\nb\n"\<close> on a fresh
  prefix writer makes the destination receive the prefix, the first line, the prefix again
  and the second line, in four writes, and leaves the writer not mid-line.
\<close>

theorem two_lines_one_call: "Write accept (newPrefixWriter pre []) ''a\<newline>b\<newline>'' =
  ((4, None), \<lparr>started = False, prefix = pre, w = [pre, ''a\<newline>'', pre, ''b\<newline>'']\<rparr>)"
  by (simp add: Write_def Write_from.simps findNewline.simps writeOnce_def accept_def newPrefixWriter_def nl_def)

text \<open>
  Claim C6. After \<^verbatim>\<open>Write("hello")\<close> a fresh prefix writer is mid-line, and a
  following \<^verbatim>\<open>Write("world\n")\<close> writes no prefix: the destination receives
  the prefix once, then \<^verbatim>\<open>hello\<close>, then \<^verbatim>\<open>world\n\<close>.
\<close>

theorem one_line_two_calls: "Write accept (newPrefixWriter pre []) ''hello'' =
     ((5, None), \<lparr>started = True, prefix = pre, w = [pre, ''hello'']\<rparr>) \<and>
   Writes accept (newPrefixWriter pre []) [''hello'', ''world\<newline>''] =
     (None, \<lparr>started = False, prefix = pre, w = [pre, ''hello'', ''world\<newline>'']\<rparr>)"
  by (simp add: Write_def Write_from.simps findNewline.simps writeOnce_def accept_def newPrefixWriter_def nl_def)

text \<open>
  Claim C7. Over a destination that keeps the contract of \<^verbatim>\<open>io.Writer\<close>, the count
  \<^verbatim>\<open>Write\<close> returns never exceeds the length of the input and is the length of the
  input when no error is returned: prefix bytes are not counted. Over any destination, when
  the input is complete lines \<open>a\<close> that were written without error followed by
  further bytes \<open>r\<close>, and the destination rejects a write for the first span of
  \<open>r\<close>, \<^verbatim>\<open>Write\<close> returns that error with the count of \<open>a\<close> plus what
  \<^verbatim>\<open>writeOnce\<close> counted for the failed span, and leaves writer and destination as that
  failed \<^verbatim>\<open>writeOnce\<close> left them: no later span reaches the destination. Every
  error that \<^verbatim>\<open>Write\<close> returns arises in this way.
\<close>

theorem Write_count_and_failure:
  "(writerContract wr \<longrightarrow>
      fst (fst (Write wr pw p)) \<le> length p \<and>
      (snd (fst (Write wr pw p)) = None \<longrightarrow> fst (fst (Write wr pw p)) = length p)) \<and>
   (\<forall>a r pw1 n e pw2.
      p = a @ r \<and> (a = [] \<or> last a = nl) \<and> r \<noteq> [] \<and>
      Write wr pw a = ((length a, None), pw1) \<and>
      writeOnce wr pw1 (hd (spans r)) = ((n, Some e), pw2) \<longrightarrow>
      Write wr pw p = ((length a + n, Some e), pw2)) \<and>
   (\<forall>e. snd (fst (Write wr pw p)) = Some e \<longrightarrow>
      (\<exists>a r pw1 n.
         p = a @ r \<and> (a = [] \<or> last a = nl) \<and> r \<noteq> [] \<and>
         Write wr pw a = ((length a, None), pw1) \<and>
         writeOnce wr pw1 (hd (spans r)) = ((n, Some e), snd (Write wr pw p)) \<and>
         fst (fst (Write wr pw p)) = length a + n))"
proof (intro conjI impI allI)
  assume c: "writerContract wr"
  obtain n err pw' where r: "spanRule wr pw (spans p) = ((n, err), pw')"
    by (metis prod.exhaust)
  from spanRule_count [OF c r]
  show "fst (fst (Write wr pw p)) \<le> length p"
    and "snd (fst (Write wr pw p)) = None \<Longrightarrow> fst (fst (Write wr pw p)) = length p"
    by (simp_all add: Write_spans r)
next
  fix a r pw1 n e pw2
  assume h: "p = a @ r \<and> (a = [] \<or> last a = nl) \<and> r \<noteq> [] \<and>
      Write wr pw a = ((length a, None), pw1) \<and>
      writeOnce wr pw1 (hd (spans r)) = ((n, Some e), pw2)"
  then have lines: "a = [] \<or> last a = nl" and "r \<noteq> []" by simp_all
  then have sp: "spans r = hd (spans r) # tl (spans r)" using spans_hd by blast
  have "Write wr pw1 r = ((n, Some e), pw2)"
    using h by (subst Write_spans, subst sp) simp
  with h show "Write wr pw p = ((length a + n, Some e), pw2)"
    by (simp add: Write_append_lines [OF lines])
next
  fix e
  assume "snd (fst (Write wr pw p)) = Some e"
  then have "spanRule wr pw (spans p) =
      ((fst (fst (Write wr pw p)), Some e), snd (Write wr pw p))"
    by (simp add: Write_spans prod_eq_iff)
  from Write_fails_at [OF this]
  show "\<exists>a r pw1 n.
         p = a @ r \<and> (a = [] \<or> last a = nl) \<and> r \<noteq> [] \<and>
         Write wr pw a = ((length a, None), pw1) \<and>
         writeOnce wr pw1 (hd (spans r)) = ((n, Some e), snd (Write wr pw p)) \<and>
         fst (fst (Write wr pw p)) = length a + n" .
qed

theorem Write_count_and_failure_witness:
  "writerContract limited \<and>
   fst (fst (Write limited (newPrefixWriter ''P:'' (7, [])) ''a\<newline>bcd\<newline>ef'')) \<le> 9 \<and>
   Write limited (newPrefixWriter ''P:'' (7, [])) ''a\<newline>'' =
     ((2, None), \<lparr>started = False, prefix = ''P:'', w = (3, [''P:'', ''a\<newline>''])\<rparr>) \<and>
   writeOnce limited \<lparr>started = False, prefix = ''P:'', w = (3, [''P:'', ''a\<newline>''])\<rparr>
       (hd (spans ''bcd\<newline>ef'')) =
     ((1, Some ''short write''),
      \<lparr>started = False, prefix = ''P:'', w = (0, [''P:'', ''a\<newline>'', ''P:'', ''b''])\<rparr>) \<and>
   Write limited (newPrefixWriter ''P:'' (7, [])) ''a\<newline>bcd\<newline>ef'' =
     ((3, Some ''short write''),
      \<lparr>started = False, prefix = ''P:'', w = (0, [''P:'', ''a\<newline>'', ''P:'', ''b''])\<rparr>)"
proof -
  let ?pw = "newPrefixWriter ''P:'' (7 :: nat, [] :: string list)"
  let ?pw1 = "\<lparr>started = False, prefix = ''P:'', w = (3 :: nat, [''P:'', ''a\<newline>''])\<rparr>"
  let ?pw2 = "\<lparr>started = False, prefix = ''P:'', w = (0 :: nat, [''P:'', ''a\<newline>'', ''P:'', ''b''])\<rparr>"
  have c: "writerContract limited"
    by (simp add: writerContract_def limited_def split: prod.splits)
  have a: "Write limited ?pw ''a\<newline>'' = ((length ''a\<newline>'', None), ?pw1)"
    by (simp add: Write_def Write_from.simps findNewline.simps writeOnce_def limited_def
        newPrefixWriter_def nl_def)
  have s: "writeOnce limited ?pw1 (hd (spans ''bcd\<newline>ef'')) = ((1, Some ''short write''), ?pw2)"
    by (simp add: spans.simps writeOnce_def limited_def nl_def)
  have l: "''a\<newline>'' = [] \<or> last ''a\<newline>'' = nl"
    by (simp add: nl_def)
  note t = Write_count_and_failure [of limited ?pw "''a\<newline>bcd\<newline>ef''"]
  from t c have le: "fst (fst (Write limited ?pw ''a\<newline>bcd\<newline>ef'')) \<le> 9"
    by simp
  from t have "''a\<newline>bcd\<newline>ef'' = ''a\<newline>'' @ ''bcd\<newline>ef'' \<and>
      (''a\<newline>'' = [] \<or> last ''a\<newline>'' = nl) \<and> ''bcd\<newline>ef'' \<noteq> [] \<and>
      Write limited ?pw ''a\<newline>'' = ((length ''a\<newline>'', None), ?pw1) \<and>
      writeOnce limited ?pw1 (hd (spans ''bcd\<newline>ef'')) = ((1, Some ''short write''), ?pw2) \<longrightarrow>
      Write limited ?pw ''a\<newline>bcd\<newline>ef'' = ((length ''a\<newline>'' + 1, Some ''short write''), ?pw2)"
    by blast
  with a s l have "Write limited ?pw ''a\<newline>bcd\<newline>ef'' = ((3, Some ''short write''), ?pw2)"
    by simp
  with c le a s show ?thesis by simp
qed

section \<open>The command runner and the loops of the orchestrator\<close>

declare collectBranches.simps [simp del]

lemmas eval_simps =
  getCurrentBranch_def getDefaultBranch_def runCmdDefaultTimeout_def runCmd_def Let_def
  repo_def repoRun_def world0_def newPrefixWriter_def cmdString_def nl_def
  TrimSpace_def trimLeft.simps trimRight.simps spaceRunes_def HasPrefix_def HasSuffix_def

lemma runCmd_eq:
  "runCmd cfg ev name args wld =
     (let lp = lookPath ev name;
          pr = (case lp of
                  Inl e \<Rightarrow> \<lparr>p_stdout = [], p_stderr = [], p_err = Some e\<rparr>
                | Inr _ \<Rightarrow> run ev (invoked wld) (name # args));
          w' = wld\<lparr>os_stdout := os_stdout wld @
                      (if verbose cfg
                       then (''[cmd] '' @ cmdString lp name args @ [nl]) #
                            emits ''[cmd][stdout] '' False (p_stdout pr)
                       else []),
                    os_stderr := os_stderr wld @ emits ''[cmd][stderr] '' False (p_stderr pr),
                    invoked := invoked wld @ [name # args]\<rparr>
      in case p_err pr of
           Some err \<Rightarrow>
             (Exit 1,
              w'\<lparr>os_stderr := os_stderr w' @
                 [''[error] error running command '' @ cmdString lp name args @ '', '' @ err @ [nl]]\<rparr>)
         | None \<Rightarrow> (Ret (concat (p_stdout pr)), w'))"
  by (simp add: runCmd_def Let_def Writes_accept_eq split: option.splits sum.splits)

lemma runCmd_invoked:
  "invoked (snd (runCmd cfg ev name args wld)) = invoked wld @ [name # args]"
  by (simp add: runCmd_eq Let_def split: option.splits)

lemma runCmd_stdout:
  "\<exists>v. os_stdout (snd (runCmd cfg ev name args wld)) = os_stdout wld @ v \<and>
       (\<not> verbose cfg \<longrightarrow> v = [])"
  by (simp add: runCmd_eq Let_def split: option.splits)

lemma getCurrentBranch_invoked:
  "invoked (snd (getCurrentBranch cfg ev wld)) =
     invoked wld @ [[''git'', ''rev-parse'', ''--abbrev-ref'', ''HEAD'']]"
  using runCmd_invoked [of cfg ev "''git''" "[''rev-parse'', ''--abbrev-ref'', ''HEAD'']" wld]
  by (auto simp: getCurrentBranch_def runCmdDefaultTimeout_def split: prod.splits outcome.splits)

lemma getDefaultBranch_invoked:
  "invoked (snd (getDefaultBranch cfg ev wld)) =
     invoked wld @ [[''git'', ''remote'', ''show'', ''origin'']]"
  using runCmd_invoked [of cfg ev "''git''" "[''remote'', ''show'', ''origin'']" wld]
  by (auto simp: getDefaultBranch_def runCmdDefaultTimeout_def split: prod.splits outcome.splits option.splits)

lemma listing_tokens:
  "scanLines ''* main\<newline>feature-a\<newline>feature-b\<newline>'' =
     ([''* main'', ''feature-a'', ''feature-b''], None)"
  by (simp add: scanLines.simps maxTokenSize_def dropCR_def nl_def)

lemma listing_branches:
  "collectBranches [] [''* main'', ''feature-a'', ''feature-b''] = [''feature-a'', ''feature-b'']"
  by (simp add: collectBranches.simps Let_def TrimSpace_def trimLeft.simps trimRight.simps spaceRunes_def
      HasPrefix_def HasSuffix_def)

lemma deleteBranch_ok:
  assumes "lookPath ev ''git'' = Inr path"
    and "p_err (run ev (invoked wld) [''git'', ''branch'', ''-d'', b]) = None"
  shows "deleteBranch cfg ev b wld =
           (Ret (), wld\<lparr>os_stdout := os_stdout wld @
                          (if verbose cfg
                           then (''[cmd] '' @ cmdString (Inr path) ''git'' [''branch'', ''-d'', b] @ [nl]) #
                                emits ''[cmd][stdout] '' False
                                  (p_stdout (run ev (invoked wld) [''git'', ''branch'', ''-d'', b]))
                           else []),
                        os_stderr := os_stderr wld @
                          emits ''[cmd][stderr] '' False
                            (p_stderr (run ev (invoked wld) [''git'', ''branch'', ''-d'', b])),
                        invoked := invoked wld @ [[''git'', ''branch'', ''-d'', b]]\<rparr>)"
  using assms
  by (simp add: deleteBranch_def runCmdDefaultTimeout_def runCmd_eq Let_def)

lemma collectBranches_eq:
  "collectBranches acc ts =
     acc @ filter (\<lambda>line. \<not> HasPrefix line ''* '') (map TrimSpace ts)"
  by (induction ts arbitrary: acc) (simp_all add: collectBranches.simps Let_def)

lemma getMergedBranches_eq:
  assumes "runCmdDefaultTimeout cfg ev ''git'' [''branch'', ''--merged''] wld = (Ret listing, w1)"
  shows "getMergedBranches cfg ev wld =
     (Ret (filter (\<lambda>line. \<not> HasPrefix line ''* '') (map TrimSpace (fst (scanLines listing)))),
      (case snd (scanLines listing) of
         None \<Rightarrow> w1
       | Some err \<Rightarrow> w1\<lparr>os_stderr := os_stderr w1 @ [''[error] scanner error '' @ err @ [nl]]\<rparr>))"
  using assms
  by (simp add: getMergedBranches_def collectBranches_eq split: prod.splits)

lemma deleteBranch_invoked:
  "invoked (snd (deleteBranch cfg ev b wld)) = invoked wld @ [[''git'', ''branch'', ''-d'', b]]"
  using runCmd_invoked [of cfg ev "''git''" "[''branch'', ''-d'', b]" wld]
  by (auto simp: deleteBranch_def runCmdDefaultTimeout_def split: prod.splits outcome.splits)

lemma deleteBranch_stdout:
  "\<exists>v. os_stdout (snd (deleteBranch cfg ev b wld)) = os_stdout wld @ v"
  using runCmd_stdout [of cfg ev "''git''" "[''branch'', ''-d'', b]" wld]
  by (auto simp: deleteBranch_def runCmdDefaultTimeout_def split: prod.splits outcome.splits)

lemma deleteLoop_dry:
  "\<not> force cfg \<Longrightarrow>
     deleteLoop cfg ev bs wld =
       (Ret (), wld\<lparr>os_stdout := os_stdout wld @ map (\<lambda>b. ''[would delete] '' @ b @ [nl]) bs\<rparr>)"
  by (induction bs arbitrary: wld) simp_all

lemma deleteLoop_mono:
  "set (os_stdout wld) \<subseteq> set (os_stdout (snd (deleteLoop cfg ev bs wld))) \<and>
   set (invoked wld) \<subseteq> set (invoked (snd (deleteLoop cfg ev bs wld)))"
proof (induction bs arbitrary: wld)
  case Nil
  show ?case by simp
next
  case (Cons b bs)
  let ?msg = "(if \<not> force cfg then ''[would delete]'' else ''[deleting]'') @ '' '' @ b @ [nl]"
  let ?w1 = "wld\<lparr>os_stdout := os_stdout wld @ [?msg]\<rparr>"
  show ?case
  proof (cases "force cfg")
    case False
    with Cons.IH [of ?w1] show ?thesis by auto
  next
    case True
    obtain r w2 where d: "deleteBranch cfg ev b ?w1 = (r, w2)"
      by (metis prod.exhaust)
    from deleteBranch_invoked [of cfg ev b ?w1] d
    have i: "set (invoked wld) \<subseteq> set (invoked w2)" by auto
    from deleteBranch_stdout [of cfg ev b ?w1] d
    have s: "set (os_stdout wld) \<subseteq> set (os_stdout w2)" by auto
    show ?thesis
    proof (cases r)
      case (Exit c)
      with True d i s show ?thesis by simp
    next
      case (Ret u)
      with True d have "deleteLoop cfg ev (b # bs) wld = deleteLoop cfg ev bs w2"
        by simp
      with Cons.IH [of w2] i s show ?thesis by auto
    qed
  qed
qed

lemma deleteLoop_force_empty:
  assumes f: "force cfg"
    and lp: "lookPath ev ''git'' = Inr path"
  shows "(\<And>h b. b \<in> set bs \<Longrightarrow> b \<noteq> [] \<Longrightarrow>
            p_err (run ev h [''git'', ''branch'', ''-d'', b]) = None) \<Longrightarrow>
     [] \<in> set bs \<Longrightarrow>
     (''[deleting] '' @ [nl]) \<in> set (os_stdout (snd (deleteLoop cfg ev bs wld))) \<and>
     [''git'', ''branch'', ''-d'', []] \<in> set (invoked (snd (deleteLoop cfg ev bs wld)))"
proof (induction bs arbitrary: wld)
  case Nil
  then show ?case by simp
next
  case (Cons b bs)
  let ?w1 = "wld\<lparr>os_stdout := os_stdout wld @ [''[deleting] '' @ b @ [nl]]\<rparr>"
  obtain r w2 where d: "deleteBranch cfg ev b ?w1 = (r, w2)"
    by (metis prod.exhaust)
  show ?case
  proof (cases "b = []")
    case True
    from deleteBranch_invoked [of cfg ev b ?w1] d True
    have i: "[''git'', ''branch'', ''-d'', []] \<in> set (invoked w2)" by auto
    from deleteBranch_stdout [of cfg ev b ?w1] d True
    have s: "(''[deleting] '' @ [nl]) \<in> set (os_stdout w2)" by auto
    show ?thesis
    proof (cases r)
      case (Exit c)
      with f d i s show ?thesis by simp
    next
      case (Ret u)
      with f d have "deleteLoop cfg ev (b # bs) wld = deleteLoop cfg ev bs w2"
        by simp
      with deleteLoop_mono [of w2 cfg ev bs] i s show ?thesis by auto
    qed
  next
    case False
    with Cons.prems have mem: "[] \<in> set bs" by auto
    have "p_err (run ev (invoked ?w1) [''git'', ''branch'', ''-d'', b]) = None"
      using Cons.prems(1) [of b "invoked ?w1"] False by simp
    from deleteBranch_ok [where wld = ?w1 and cfg = cfg, OF lp this] d
    have "r = Ret ()" by simp
    with f d have "deleteLoop cfg ev (b # bs) wld = deleteLoop cfg ev bs w2"
      by simp
    moreover have "\<And>h c. c \<in> set bs \<Longrightarrow> c \<noteq> [] \<Longrightarrow>
        p_err (run ev h [''git'', ''branch'', ''-d'', c]) = None"
      using Cons.prems(1) by simp
    ultimately show ?thesis
      using Cons.IH [OF _ mem, of w2] by simp
  qed
qed

lemma main_loop:
  assumes "getCurrentBranch cfg ev wld = (Ret b, wa)"
    and "getDefaultBranch cfg ev wa = (Ret b, wb)"
    and "getMergedBranches cfg ev wb = (Ret branches, w2)"
  shows "snd (main cfg ev wld) = snd (deleteLoop cfg ev branches w2)"
  using assms by (simp add: main_def split: prod.splits outcome.splits)

lemma long_line_tokens:
  "scanLines (''feature-a\<newline>'' @ replicate 65536 (CHR ''x'')) =
     ([''feature-a''], Some ''bufio.Scanner: token too long'')"
  by (simp add: scanLines.simps maxTokenSize_def dropCR_def nl_def)

section \<open>The orchestrator\<close>

text \<open>
  Claim C3. With current and default branch both \<^verbatim>\<open>main\<close> and the merged-branches
  listing \<^verbatim>\<open>"* main\nfeature-a\nfeature-b\n"\<close>, the program exits with status 0 after the
  three queries; without the force flag it prints \<^verbatim>\<open>[would delete] feature-a\<close> and
  \<^verbatim>\<open>[would delete] feature-b\<close> and runs no delete command; with the force flag (the
  two deletes succeeding) it prints \<^verbatim>\<open>[deleting] feature-a\<close> and
  \<^verbatim>\<open>[deleting] feature-b\<close> and runs exactly the two delete commands, one per
  candidate. The candidates that \<^verbatim>\<open>getMergedBranches\<close> returns are the two feature
  branches: the line \<^verbatim>\<open>* main\<close> is none. Only the verbose echo of the delete
  commands (\<open>v1\<close>, \<open>v2\<close>) stands between and after the two printed lines.
\<close>

theorem orchestrator_scenario:
  assumes cur: "getCurrentBranch cfg ev world0 = (Ret ''main'', w1)"
    and dfl: "getDefaultBranch cfg ev w1 = (Ret ''main'', w2)"
    and lst: "runCmdDefaultTimeout cfg ev ''git'' [''branch'', ''--merged''] w2 =
                (Ret ''* main\<newline>feature-a\<newline>feature-b\<newline>'', w3)"
    and del: "force cfg \<longrightarrow>
                (\<exists>path. lookPath ev ''git'' = Inr path) \<and>
                (\<forall>h. p_err (run ev h [''git'', ''branch'', ''-d'', ''feature-a'']) = None \<and>
                     p_err (run ev h [''git'', ''branch'', ''-d'', ''feature-b'']) = None)"
  shows "getMergedBranches cfg ev w2 = (Ret [''feature-a'', ''feature-b''], w3) \<and>
         fst (main cfg ev world0) = 0 \<and>
         invoked (snd (main cfg ev world0)) =
           [[''git'', ''rev-parse'', ''--abbrev-ref'', ''HEAD''],
            [''git'', ''remote'', ''show'', ''origin''],
            [''git'', ''branch'', ''--merged'']] @
           (if force cfg
            then [[''git'', ''branch'', ''-d'', ''feature-a''],
                  [''git'', ''branch'', ''-d'', ''feature-b'']]
            else []) \<and>
         (\<exists>v1 v2.
            os_stdout (snd (main cfg ev world0)) =
              os_stdout w3 @
              [(if force cfg then ''[deleting]'' else ''[would delete]'') @ '' feature-a\<newline>''] @ v1 @
              [(if force cfg then ''[deleting]'' else ''[would delete]'') @ '' feature-b\<newline>''] @ v2 \<and>
            (\<not> (force cfg \<and> verbose cfg) \<longrightarrow> v1 = [] \<and> v2 = []))"
proof -
  have i1: "invoked w1 = [[''git'', ''rev-parse'', ''--abbrev-ref'', ''HEAD'']]"
    using getCurrentBranch_invoked [of cfg ev world0] cur by (simp add: world0_def)
  have i2: "invoked w2 = invoked w1 @ [[''git'', ''remote'', ''show'', ''origin'']]"
    using getDefaultBranch_invoked [of cfg ev w1] dfl by simp
  have i3: "invoked w3 = invoked w2 @ [[''git'', ''branch'', ''--merged'']]"
    using runCmd_invoked [of cfg ev "''git''" "[''branch'', ''--merged'']" w2] lst
    by (simp add: runCmdDefaultTimeout_def)
  have mb: "getMergedBranches cfg ev w2 = (Ret [''feature-a'', ''feature-b''], w3)"
    using lst by (simp add: getMergedBranches_def listing_tokens listing_branches)
  have m: "main cfg ev world0 =
      (case deleteLoop cfg ev [''feature-a'', ''feature-b''] w3 of
         (Exit c, w4) \<Rightarrow> (c, w4) | (Ret _, w4) \<Rightarrow> (0, w4))"
    using cur dfl mb by (simp add: main_def)
  show ?thesis
  proof (cases "force cfg")
    case False
    then show ?thesis
      by (simp add: mb m i1 i2 i3 nl_def)
  next
    case True
    with del obtain path where lp: "lookPath ev ''git'' = Inr path"
      and ok: "\<And>h. p_err (run ev h [''git'', ''branch'', ''-d'', ''feature-a'']) = None"
        "\<And>h. p_err (run ev h [''git'', ''branch'', ''-d'', ''feature-b'']) = None"
      by blast
    let ?wa = "w3\<lparr>os_stdout := os_stdout w3 @ [''[deleting] feature-a\<newline>'']\<rparr>"
    from deleteBranch_ok [where wld = ?wa and cfg = cfg, OF lp ok(1)]
    obtain v1 wa' where da: "deleteBranch cfg ev ''feature-a'' ?wa = (Ret (), wa')"
      and oa: "os_stdout wa' = os_stdout w3 @ [''[deleting] feature-a\<newline>''] @ v1"
      and ia: "invoked wa' = invoked w3 @ [[''git'', ''branch'', ''-d'', ''feature-a'']]"
      and va: "\<not> verbose cfg \<longrightarrow> v1 = []"
      by auto
    let ?wb = "wa'\<lparr>os_stdout := os_stdout wa' @ [''[deleting] feature-b\<newline>'']\<rparr>"
    from deleteBranch_ok [where wld = ?wb and cfg = cfg, OF lp ok(2)]
    obtain v2 wb' where db: "deleteBranch cfg ev ''feature-b'' ?wb = (Ret (), wb')"
      and ob: "os_stdout wb' = os_stdout wa' @ [''[deleting] feature-b\<newline>''] @ v2"
      and ib: "invoked wb' = invoked wa' @ [[''git'', ''branch'', ''-d'', ''feature-b'']]"
      and vb: "\<not> verbose cfg \<longrightarrow> v2 = []"
      by auto
    have "main cfg ev world0 = (0, wb')"
      using True da db by (simp add: m nl_def)
    with True oa ob ia ib va vb i1 i2 i3 mb show ?thesis
      by auto
  qed
qed

theorem orchestrator_scenario_witness:
  "getCurrentBranch \<lparr>force = True, verbose = False\<rparr>
      (repo ''main'' ''main'' ''* main\<newline>feature-a\<newline>feature-b\<newline>'' [''feature-a'', ''feature-b''])
      world0 =
     (Ret ''main'',
      \<lparr>os_stdout = [], os_stderr = [],
        invoked = [[''git'', ''rev-parse'', ''--abbrev-ref'', ''HEAD'']]\<rparr>) \<and>
   getDefaultBranch \<lparr>force = True, verbose = False\<rparr>
      (repo ''main'' ''main'' ''* main\<newline>feature-a\<newline>feature-b\<newline>'' [''feature-a'', ''feature-b''])
      \<lparr>os_stdout = [], os_stderr = [],
        invoked = [[''git'', ''rev-parse'', ''--abbrev-ref'', ''HEAD'']]\<rparr> =
     (Ret ''main'',
      \<lparr>os_stdout = [], os_stderr = [],
        invoked = [[''git'', ''rev-parse'', ''--abbrev-ref'', ''HEAD''],
                   [''git'', ''remote'', ''show'', ''origin'']]\<rparr>) \<and>
   runCmdDefaultTimeout \<lparr>force = True, verbose = False\<rparr>
      (repo ''main'' ''main'' ''* main\<newline>feature-a\<newline>feature-b\<newline>'' [''feature-a'', ''feature-b''])
      ''git'' [''branch'', ''--merged'']
      \<lparr>os_stdout = [], os_stderr = [],
        invoked = [[''git'', ''rev-parse'', ''--abbrev-ref'', ''HEAD''],
                   [''git'', ''remote'', ''show'', ''origin'']]\<rparr> =
     (Ret ''* main\<newline>feature-a\<newline>feature-b\<newline>'',
      \<lparr>os_stdout = [], os_stderr = [],
        invoked = [[''git'', ''rev-parse'', ''--abbrev-ref'', ''HEAD''],
                   [''git'', ''remote'', ''show'', ''origin''],
                   [''git'', ''branch'', ''--merged'']]\<rparr>) \<and>
   fst (main \<lparr>force = True, verbose = False\<rparr>
      (repo ''main'' ''main'' ''* main\<newline>feature-a\<newline>feature-b\<newline>'' [''feature-a'', ''feature-b''])
      world0) = 0 \<and>
   invoked (snd (main \<lparr>force = True, verbose = False\<rparr>
      (repo ''main'' ''main'' ''* main\<newline>feature-a\<newline>feature-b\<newline>'' [''feature-a'', ''feature-b''])
      world0)) =
     [[''git'', ''rev-parse'', ''--abbrev-ref'', ''HEAD''],
      [''git'', ''remote'', ''show'', ''origin''],
      [''git'', ''branch'', ''--merged''],
      [''git'', ''branch'', ''-d'', ''feature-a''],
      [''git'', ''branch'', ''-d'', ''feature-b'']] \<and>
   os_stdout (snd (main \<lparr>force = True, verbose = False\<rparr>
      (repo ''main'' ''main'' ''* main\<newline>feature-a\<newline>feature-b\<newline>'' [''feature-a'', ''feature-b''])
      world0)) =
     [''[deleting] feature-a\<newline>'', ''[deleting] feature-b\<newline>'']"
proof -
  let ?cfg = "\<lparr>force = True, verbose = False\<rparr>"
  let ?ev = "repo ''main'' ''main'' ''* main\<newline>feature-a\<newline>feature-b\<newline>'' [''feature-a'', ''feature-b'']"
  let ?w1 = "\<lparr>os_stdout = [], os_stderr = [],
        invoked = [[''git'', ''rev-parse'', ''--abbrev-ref'', ''HEAD'']]\<rparr>"
  let ?w2 = "\<lparr>os_stdout = [], os_stderr = [],
        invoked = [[''git'', ''rev-parse'', ''--abbrev-ref'', ''HEAD''],
                   [''git'', ''remote'', ''show'', ''origin'']]\<rparr>"
  let ?w3 = "\<lparr>os_stdout = [], os_stderr = [],
        invoked = [[''git'', ''rev-parse'', ''--abbrev-ref'', ''HEAD''],
                   [''git'', ''remote'', ''show'', ''origin''],
                   [''git'', ''branch'', ''--merged'']]\<rparr>"
  have cur: "getCurrentBranch ?cfg ?ev world0 = (Ret ''main'', ?w1)"
    by (simp add: eval_simps)
  have dfl: "getDefaultBranch ?cfg ?ev ?w1 = (Ret ''main'', ?w2)"
    by (simp add: eval_simps)
  have lst: "runCmdDefaultTimeout ?cfg ?ev ''git'' [''branch'', ''--merged''] ?w2 =
      (Ret ''* main\<newline>feature-a\<newline>feature-b\<newline>'', ?w3)"
    by (simp add: eval_simps)
  have del: "force ?cfg \<longrightarrow>
      (\<exists>path. lookPath ?ev ''git'' = Inr path) \<and>
      (\<forall>h. p_err (run ?ev h [''git'', ''branch'', ''-d'', ''feature-a'']) = None \<and>
           p_err (run ?ev h [''git'', ''branch'', ''-d'', ''feature-b'']) = None)"
    by (simp add: repo_def repoRun_def)
  from orchestrator_scenario [OF cur dfl lst del] cur dfl lst show ?thesis
    by simp
qed

text \<open>
  Claim C4. When the current branch that \<^verbatim>\<open>getCurrentBranch\<close> returns differs from
  the default branch that \<^verbatim>\<open>getDefaultBranch\<close> returns, the program writes its refusal
  to standard error and exits with status 1, whatever the flags are; the two queries are
  the only subprocesses it has run: the merged branches are not listed and nothing is
  deleted.
\<close>

theorem wrong_branch_aborts:
  assumes "getCurrentBranch cfg ev wld = (Ret currentBranch, w1)"
    and "getDefaultBranch cfg ev w1 = (Ret defaultBranch, w2)"
    and "currentBranch \<noteq> defaultBranch"
  shows "main cfg ev wld =
           (1, w2\<lparr>os_stderr := os_stderr w2 @ [refusal currentBranch defaultBranch]\<rparr>) \<and>
         invoked (snd (main cfg ev wld)) =
           invoked wld @ [[''git'', ''rev-parse'', ''--abbrev-ref'', ''HEAD''],
                          [''git'', ''remote'', ''show'', ''origin'']]"
proof -
  have "invoked w1 = invoked wld @ [[''git'', ''rev-parse'', ''--abbrev-ref'', ''HEAD'']]"
    using getCurrentBranch_invoked [of cfg ev wld] assms(1) by simp
  moreover have "invoked w2 = invoked w1 @ [[''git'', ''remote'', ''show'', ''origin'']]"
    using getDefaultBranch_invoked [of cfg ev w1] assms(2) by simp
  ultimately show ?thesis
    using assms by (simp add: main_def)
qed

theorem wrong_branch_aborts_witness:
  "getCurrentBranch \<lparr>force = True, verbose = False\<rparr>
      (repo ''feature-x'' ''main'' ''* feature-x\<newline>feature-a\<newline>'' [''feature-a'']) world0 =
     (Ret ''feature-x'',
      \<lparr>os_stdout = [], os_stderr = [],
        invoked = [[''git'', ''rev-parse'', ''--abbrev-ref'', ''HEAD'']]\<rparr>) \<and>
   getDefaultBranch \<lparr>force = True, verbose = False\<rparr>
      (repo ''feature-x'' ''main'' ''* feature-x\<newline>feature-a\<newline>'' [''feature-a''])
      \<lparr>os_stdout = [], os_stderr = [],
        invoked = [[''git'', ''rev-parse'', ''--abbrev-ref'', ''HEAD'']]\<rparr> =
     (Ret ''main'',
      \<lparr>os_stdout = [], os_stderr = [],
        invoked = [[''git'', ''rev-parse'', ''--abbrev-ref'', ''HEAD''],
                   [''git'', ''remote'', ''show'', ''origin'']]\<rparr>) \<and>
   ''feature-x'' \<noteq> ''main'' \<and>
   fst (main \<lparr>force = True, verbose = False\<rparr>
      (repo ''feature-x'' ''main'' ''* feature-x\<newline>feature-a\<newline>'' [''feature-a'']) world0) = 1 \<and>
   invoked (snd (main \<lparr>force = True, verbose = False\<rparr>
      (repo ''feature-x'' ''main'' ''* feature-x\<newline>feature-a\<newline>'' [''feature-a'']) world0)) =
     [[''git'', ''rev-parse'', ''--abbrev-ref'', ''HEAD''],
      [''git'', ''remote'', ''show'', ''origin'']]"
proof -
  let ?cfg = "\<lparr>force = True, verbose = False\<rparr>"
  let ?ev = "repo ''feature-x'' ''main'' ''* feature-x\<newline>feature-a\<newline>'' [''feature-a'']"
  let ?w1 = "\<lparr>os_stdout = [], os_stderr = [],
        invoked = [[''git'', ''rev-parse'', ''--abbrev-ref'', ''HEAD'']]\<rparr>"
  let ?w2 = "\<lparr>os_stdout = [], os_stderr = [],
        invoked = [[''git'', ''rev-parse'', ''--abbrev-ref'', ''HEAD''],
                   [''git'', ''remote'', ''show'', ''origin'']]\<rparr>"
  have cur: "getCurrentBranch ?cfg ?ev world0 = (Ret ''feature-x'', ?w1)"
    by (simp add: eval_simps)
  have dfl: "getDefaultBranch ?cfg ?ev ?w1 = (Ret ''main'', ?w2)"
    by (simp add: eval_simps)
  have ne: "''feature-x'' \<noteq> ''main''"
    by simp
  from wrong_branch_aborts [OF cur dfl ne] cur dfl ne show ?thesis
    by (simp add: world0_def)
qed

text \<open>
  Claim C10. \<^verbatim>\<open>getMergedBranches\<close> returns the trimmed tokens of the scanner that do not
  start with \<^verbatim>\<open>"* "\<close>, every one of them. A token that is empty after trimming therefore
  gives the empty branch name as a candidate; the program then prints
  \<^verbatim>\<open>[would delete] \<close> without the force flag, and with the force flag (the deletes of
  the other candidates succeeding) prints \<^verbatim>\<open>[deleting] \<close> and runs
  \<^verbatim>\<open>git branch -d ""\<close>.
\<close>

theorem blank_line_candidate:
  assumes cur: "getCurrentBranch cfg ev wld = (Ret b, wa)"
    and dfl: "getDefaultBranch cfg ev wa = (Ret b, wb)"
    and lst: "runCmdDefaultTimeout cfg ev ''git'' [''branch'', ''--merged''] wb = (Ret listing, w1)"
    and mb: "getMergedBranches cfg ev wb = (Ret branches, w2)"
    and tok: "t \<in> set (fst (scanLines listing))"
    and blank: "TrimSpace t = []"
  shows "branches =
           filter (\<lambda>line. \<not> HasPrefix line ''* '') (map TrimSpace (fst (scanLines listing))) \<and>
         [] \<in> set branches \<and>
         (\<not> force cfg \<longrightarrow>
            (''[would delete] '' @ [nl]) \<in> set (os_stdout (snd (main cfg ev wld))) \<and>
            [''git'', ''branch'', ''-d'', []] \<notin> set (invoked (snd (main cfg ev wld))) - set (invoked wld)) \<and>
         (force cfg \<and> (\<exists>path. lookPath ev ''git'' = Inr path) \<and>
          (\<forall>h c. c \<in> set branches \<and> c \<noteq> [] \<longrightarrow>
             p_err (run ev h [''git'', ''branch'', ''-d'', c]) = None) \<longrightarrow>
            (''[deleting] '' @ [nl]) \<in> set (os_stdout (snd (main cfg ev wld))) \<and>
            [''git'', ''branch'', ''-d'', []] \<in> set (invoked (snd (main cfg ev wld))))"
proof -
  let ?bs = "filter (\<lambda>line. \<not> HasPrefix line ''* '') (map TrimSpace (fst (scanLines listing)))"
  let ?w2 = "case snd (scanLines listing) of
         None \<Rightarrow> w1
       | Some err \<Rightarrow> w1\<lparr>os_stderr := os_stderr w1 @ [''[error] scanner error '' @ err @ [nl]]\<rparr>"
  have g: "getMergedBranches cfg ev wb = (Ret ?bs, ?w2)"
    by (rule getMergedBranches_eq [OF lst])
  with mb have bs: "branches = ?bs" and w2: "w2 = ?w2"
    by simp_all
  have mem: "[] \<in> set branches"
    unfolding bs using tok blank by (force simp: HasPrefix_def)
  have m: "snd (main cfg ev wld) = snd (deleteLoop cfg ev branches w2)"
    by (rule main_loop [OF cur dfl mb])
  have dry: "(''[would delete] '' @ [nl]) \<in> set (os_stdout (snd (main cfg ev wld))) \<and>
      [''git'', ''branch'', ''-d'', []] \<notin> set (invoked (snd (main cfg ev wld))) - set (invoked wld)"
    if "\<not> force cfg"
  proof -
    have i1: "invoked wa = invoked wld @ [[''git'', ''rev-parse'', ''--abbrev-ref'', ''HEAD'']]"
      using getCurrentBranch_invoked [of cfg ev wld] cur by simp
    have i2: "invoked wb = invoked wa @ [[''git'', ''remote'', ''show'', ''origin'']]"
      using getDefaultBranch_invoked [of cfg ev wa] dfl by simp
    have i3: "invoked w1 = invoked wb @ [[''git'', ''branch'', ''--merged'']]"
      using runCmd_invoked [of cfg ev "''git''" "[''branch'', ''--merged'']" wb] lst
      by (simp add: runCmdDefaultTimeout_def)
    have i4: "invoked w2 = invoked w1"
      by (simp add: w2 split: option.splits)
    from that mem show ?thesis
      by (auto simp: m deleteLoop_dry i1 i2 i3 i4)
  qed
  have frc: "(''[deleting] '' @ [nl]) \<in> set (os_stdout (snd (main cfg ev wld))) \<and>
      [''git'', ''branch'', ''-d'', []] \<in> set (invoked (snd (main cfg ev wld)))"
    if "force cfg \<and> (\<exists>path. lookPath ev ''git'' = Inr path) \<and>
        (\<forall>h c. c \<in> set branches \<and> c \<noteq> [] \<longrightarrow>
           p_err (run ev h [''git'', ''branch'', ''-d'', c]) = None)"
  proof -
    from that obtain path where f: "force cfg" and lp: "lookPath ev ''git'' = Inr path"
      and ok: "\<And>h c. c \<in> set branches \<Longrightarrow> c \<noteq> [] \<Longrightarrow>
        p_err (run ev h [''git'', ''branch'', ''-d'', c]) = None"
      by blast
    from deleteLoop_force_empty [OF f lp ok mem] show ?thesis
      by (simp add: m)
  qed
  from bs mem dry frc show ?thesis
    by blast
qed

theorem blank_line_candidate_witness:
  "getCurrentBranch \<lparr>force = True, verbose = False\<rparr>
      (repo ''main'' ''main'' ''* main\<newline>feature-a\<newline>  \<newline>feature-b\<newline>'' [''feature-a'', ''feature-b''])
      world0 =
     (Ret ''main'',
      \<lparr>os_stdout = [], os_stderr = [],
        invoked = [[''git'', ''rev-parse'', ''--abbrev-ref'', ''HEAD'']]\<rparr>) \<and>
   getDefaultBranch \<lparr>force = True, verbose = False\<rparr>
      (repo ''main'' ''main'' ''* main\<newline>feature-a\<newline>  \<newline>feature-b\<newline>'' [''feature-a'', ''feature-b''])
      \<lparr>os_stdout = [], os_stderr = [],
        invoked = [[''git'', ''rev-parse'', ''--abbrev-ref'', ''HEAD'']]\<rparr> =
     (Ret ''main'',
      \<lparr>os_stdout = [], os_stderr = [],
        invoked = [[''git'', ''rev-parse'', ''--abbrev-ref'', ''HEAD''],
                   [''git'', ''remote'', ''show'', ''origin'']]\<rparr>) \<and>
   scanLines ''* main\<newline>feature-a\<newline>  \<newline>feature-b\<newline>'' =
     ([''* main'', ''feature-a'', ''  '', ''feature-b''], None) \<and>
   TrimSpace ''  '' = [] \<and>
   getMergedBranches \<lparr>force = True, verbose = False\<rparr>
      (repo ''main'' ''main'' ''* main\<newline>feature-a\<newline>  \<newline>feature-b\<newline>'' [''feature-a'', ''feature-b''])
      \<lparr>os_stdout = [], os_stderr = [],
        invoked = [[''git'', ''rev-parse'', ''--abbrev-ref'', ''HEAD''],
                   [''git'', ''remote'', ''show'', ''origin'']]\<rparr> =
     (Ret [''feature-a'', [], ''feature-b''],
      \<lparr>os_stdout = [], os_stderr = [],
        invoked = [[''git'', ''rev-parse'', ''--abbrev-ref'', ''HEAD''],
                   [''git'', ''remote'', ''show'', ''origin''],
                   [''git'', ''branch'', ''--merged'']]\<rparr>) \<and>
   (''[deleting] '' @ [nl]) \<in> set (os_stdout (snd (main \<lparr>force = True, verbose = False\<rparr>
      (repo ''main'' ''main'' ''* main\<newline>feature-a\<newline>  \<newline>feature-b\<newline>'' [''feature-a'', ''feature-b''])
      world0))) \<and>
   [''git'', ''branch'', ''-d'', []] \<in> set (invoked (snd (main \<lparr>force = True, verbose = False\<rparr>
      (repo ''main'' ''main'' ''* main\<newline>feature-a\<newline>  \<newline>feature-b\<newline>'' [''feature-a'', ''feature-b''])
      world0))) \<and>
   (''[would delete] '' @ [nl]) \<in> set (os_stdout (snd (main \<lparr>force = False, verbose = False\<rparr>
      (repo ''main'' ''main'' ''* main\<newline>feature-a\<newline>  \<newline>feature-b\<newline>'' [''feature-a'', ''feature-b''])
      world0)))"
proof -
  let ?cfg = "\<lparr>force = True, verbose = False\<rparr>"
  let ?listing = "''* main\<newline>feature-a\<newline>  \<newline>feature-b\<newline>''"
  let ?ev = "repo ''main'' ''main'' ?listing [''feature-a'', ''feature-b'']"
  let ?w1 = "\<lparr>os_stdout = [], os_stderr = [],
        invoked = [[''git'', ''rev-parse'', ''--abbrev-ref'', ''HEAD'']]\<rparr>"
  let ?w2 = "\<lparr>os_stdout = [], os_stderr = [],
        invoked = [[''git'', ''rev-parse'', ''--abbrev-ref'', ''HEAD''],
                   [''git'', ''remote'', ''show'', ''origin'']]\<rparr>"
  let ?w3 = "\<lparr>os_stdout = [], os_stderr = [],
        invoked = [[''git'', ''rev-parse'', ''--abbrev-ref'', ''HEAD''],
                   [''git'', ''remote'', ''show'', ''origin''],
                   [''git'', ''branch'', ''--merged'']]\<rparr>"
  have cur: "getCurrentBranch ?cfg ?ev world0 = (Ret ''main'', ?w1)"
    by (simp add: eval_simps)
  have dfl: "getDefaultBranch ?cfg ?ev ?w1 = (Ret ''main'', ?w2)"
    by (simp add: eval_simps)
  have lst: "runCmdDefaultTimeout ?cfg ?ev ''git'' [''branch'', ''--merged''] ?w2 = (Ret ?listing, ?w3)"
    by (simp add: eval_simps)
  have sc: "scanLines ?listing = ([''* main'', ''feature-a'', ''  '', ''feature-b''], None)"
    by (simp add: scanLines.simps maxTokenSize_def dropCR_def nl_def)
  have tok: "''  '' \<in> set (fst (scanLines ?listing))"
    by (simp add: sc)
  have blank: "TrimSpace ''  '' = []"
    by (simp add: eval_simps)
  have tr: "TrimSpace ''* main'' = ''* main''" "TrimSpace ''feature-a'' = ''feature-a''"
    "TrimSpace ''feature-b'' = ''feature-b''"
    by (simp_all add: eval_simps)
  have mb: "getMergedBranches ?cfg ?ev ?w2 = (Ret [''feature-a'', [], ''feature-b''], ?w3)"
    using lst by (simp add: getMergedBranches_def sc collectBranches_eq tr blank HasPrefix_def)
  have frc: "force ?cfg \<and> (\<exists>path. lookPath ?ev ''git'' = Inr path) \<and>
      (\<forall>h c. c \<in> set [''feature-a'', [], ''feature-b''] \<and> c \<noteq> [] \<longrightarrow>
         p_err (run ?ev h [''git'', ''branch'', ''-d'', c]) = None)"
    by (auto simp: repo_def repoRun_def)
  from blank_line_candidate [OF cur dfl lst mb tok blank] frc
  have r1: "(''[deleting] '' @ [nl]) \<in> set (os_stdout (snd (main ?cfg ?ev world0)))"
    and r2: "[''git'', ''branch'', ''-d'', []] \<in> set (invoked (snd (main ?cfg ?ev world0)))"
    by blast+
  let ?dry = "\<lparr>force = False, verbose = False\<rparr>"
  have cur': "getCurrentBranch ?dry ?ev world0 = (Ret ''main'', ?w1)"
    by (simp add: eval_simps)
  have dfl': "getDefaultBranch ?dry ?ev ?w1 = (Ret ''main'', ?w2)"
    by (simp add: eval_simps)
  have lst': "runCmdDefaultTimeout ?dry ?ev ''git'' [''branch'', ''--merged''] ?w2 = (Ret ?listing, ?w3)"
    by (simp add: eval_simps)
  have mb': "getMergedBranches ?dry ?ev ?w2 = (Ret [''feature-a'', [], ''feature-b''], ?w3)"
    using lst' by (simp add: getMergedBranches_def sc collectBranches_eq tr blank HasPrefix_def)
  have "\<not> force ?dry"
    by simp
  with blank_line_candidate [OF cur' dfl' lst' mb' tok blank]
  have r3: "(''[would delete] '' @ [nl]) \<in> set (os_stdout (snd (main ?dry ?ev world0)))"
    by blast
  show ?thesis
    by (intro conjI) (rule cur dfl sc blank mb r1 r2 r3)+
qed

text \<open>
  Claim C8, at a listing whose second line has 65536 bytes: the scanner stops with
  \<^verbatim>\<open>ErrTooLong\<close>, \<^verbatim>\<open>getMergedBranches\<close> prints the error and returns the
  branches scanned so far, and the program goes on: it deletes \<^verbatim>\<open>feature-a\<close> and
  exits with status 0.
\<close>

theorem scan_failure_continues:
  "main \<lparr>force = True, verbose = False\<rparr>
     (repo ''main'' ''main'' (''feature-a\<newline>'' @ replicate 65536 (CHR ''x'')) [''feature-a''])
     world0 =
   (0, \<lparr>os_stdout = [''[deleting] feature-a\<newline>''],
        os_stderr = [''[error] scanner error bufio.Scanner: token too long\<newline>''],
        invoked = [[''git'', ''rev-parse'', ''--abbrev-ref'', ''HEAD''],
                   [''git'', ''remote'', ''show'', ''origin''],
                   [''git'', ''branch'', ''--merged''],
                   [''git'', ''branch'', ''-d'', ''feature-a'']]\<rparr>)"
proof -
  let ?cfg = "\<lparr>force = True, verbose = False\<rparr>"
  let ?listing = "''feature-a\<newline>'' @ replicate 65536 (CHR ''x'')"
  let ?ev = "repo ''main'' ''main'' ?listing [''feature-a'']"
  let ?w1 = "\<lparr>os_stdout = [], os_stderr = [],
        invoked = [[''git'', ''rev-parse'', ''--abbrev-ref'', ''HEAD'']]\<rparr>"
  let ?w2 = "\<lparr>os_stdout = [], os_stderr = [],
        invoked = [[''git'', ''rev-parse'', ''--abbrev-ref'', ''HEAD''],
                   [''git'', ''remote'', ''show'', ''origin'']]\<rparr>"
  let ?w3 = "\<lparr>os_stdout = [], os_stderr = [],
        invoked = [[''git'', ''rev-parse'', ''--abbrev-ref'', ''HEAD''],
                   [''git'', ''remote'', ''show'', ''origin''],
                   [''git'', ''branch'', ''--merged'']]\<rparr>"
  let ?w3e = "\<lparr>os_stdout = [],
        os_stderr = [''[error] scanner error bufio.Scanner: token too long\<newline>''],
        invoked = [[''git'', ''rev-parse'', ''--abbrev-ref'', ''HEAD''],
                   [''git'', ''remote'', ''show'', ''origin''],
                   [''git'', ''branch'', ''--merged'']]\<rparr>"
  have cur: "getCurrentBranch ?cfg ?ev world0 = (Ret ''main'', ?w1)"
    by (simp add: eval_simps)
  have dfl: "getDefaultBranch ?cfg ?ev ?w1 = (Ret ''main'', ?w2)"
    by (simp add: eval_simps)
  have lst: "runCmdDefaultTimeout ?cfg ?ev ''git'' [''branch'', ''--merged''] ?w2 = (Ret ?listing, ?w3)"
    by (simp add: eval_simps)
  have tr: "TrimSpace ''feature-a'' = ''feature-a''"
    by (simp add: eval_simps)
  have mb: "getMergedBranches ?cfg ?ev ?w2 = (Ret [''feature-a''], ?w3e)"
    using getMergedBranches_eq [OF lst]
    by (simp only: long_line_tokens) (simp add: tr HasPrefix_def nl_def)
  have del: "deleteBranch ?cfg ?ev ''feature-a''
      (?w3e\<lparr>os_stdout := os_stdout ?w3e @ [''[deleting] feature-a\<newline>'']\<rparr>) =
      (Ret (), \<lparr>os_stdout = [''[deleting] feature-a\<newline>''],
        os_stderr = [''[error] scanner error bufio.Scanner: token too long\<newline>''],
        invoked = [[''git'', ''rev-parse'', ''--abbrev-ref'', ''HEAD''],
                   [''git'', ''remote'', ''show'', ''origin''],
                   [''git'', ''branch'', ''--merged''],
                   [''git'', ''branch'', ''-d'', ''feature-a'']]\<rparr>)"
    by (simp add: deleteBranch_def eval_simps)
  show ?thesis
    using cur dfl mb del by (simp add: main_def nl_def)
qed

text \<open>
  Claim C9, at the candidate \<^verbatim>\<open>+ topic\<close>: the verbose echo of its delete command is
  the path and the arguments joined by spaces, unquoted, and it is the same line as the
  echo of a command with the two arguments \<^verbatim>\<open>+\<close> and \<^verbatim>\<open>topic\<close>.
\<close>

theorem verbose_echo_unquoted:
  "hd (os_stdout (snd (deleteBranch \<lparr>force = True, verbose = True\<rparr>
         (repo ''main'' ''main'' ''* main\<newline>+ topic\<newline>'' []) ''+ topic'' world0))) =
     ''[cmd] /usr/bin/git branch -d + topic\<newline>'' \<and>
   hd (os_stdout (snd (runCmd \<lparr>force = True, verbose = True\<rparr>
         (repo ''main'' ''main'' ''* main\<newline>+ topic\<newline>'' []) ''git''
         [''branch'', ''-d'', ''+'', ''topic''] world0))) =
     ''[cmd] /usr/bin/git branch -d + topic\<newline>''"
  by (simp add: deleteBranch_def runCmdDefaultTimeout_def runCmd_eq Let_def repo_def
      cmdString_def world0_def nl_def split: prod.splits outcome.splits option.splits)

end
